theory Spec2Isabelle
  imports Main
begin

text \<open>
  A model of the class \<^verbatim>\<open>ChessVar\<close> of \<^verbatim>\<open>ChessVar.py\<close>, an engine for atomic chess,
  and proofs of properties of its methods \<^verbatim>\<open>position_index\<close>, \<^verbatim>\<open>clear_path\<close>,
  \<^verbatim>\<open>valid_move\<close> and \<^verbatim>\<open>make_move\<close>. Each method is a function of the state of the
  object (and returns the new state where it changes it), named as in the source.
\<close>

section \<open>Python values used by ChessVar\<close>

text \<open>
  The exceptions the code of \<^verbatim>\<open>ChessVar.py\<close> can raise. A computation that raises is
  \<open>Inl e\<close>, one that returns \<open>v\<close> is \<open>Inr v\<close>. Where a \<^verbatim>\<open>while\<close> loop is involved the
  result is wrapped in \<open>option\<close>, and \<open>None\<close> stands for a loop that never ends.
\<close>

datatype error = ValueError | TypeError | IndexError | KeyError

text \<open>
  A Python string is modelled as the list of its code points, restricted to code points
  below 256, so that a \<^typ>\<open>char\<close> is one code point (not a byte of an encoding).
  On that range \<^verbatim>\<open>str.isdigit\<close> holds of the ASCII digits and of the three
  superscript digits U+00B2, U+00B3 and U+00B9, while \<^verbatim>\<open>int\<close> accepts the ASCII
  digits only and raises \<^verbatim>\<open>ValueError\<close> on the superscripts.
\<close>

definition isdigit :: "char \<Rightarrow> bool" where
  "isdigit c \<longleftrightarrow>
     (48 \<le> (of_char c :: nat) \<and> (of_char c :: nat) \<le> 57) \<or> c = CHR 0xB2 \<or> c = CHR 0xB3 \<or> c = CHR 0xB9"

definition py_int :: "char \<Rightarrow> error + int" where
  "py_int c =
     (if 48 \<le> (of_char c :: nat) \<and> (of_char c :: nat) \<le> 57 then Inr (int (of_char c) - 48)
      else Inl ValueError)"

text \<open>
  \<^verbatim>\<open>isupper\<close>, \<^verbatim>\<open>islower\<close>, \<^verbatim>\<open>upper\<close> and \<^verbatim>\<open>lower\<close> of a one-character string, on
  ASCII. The code applies them to board cells only, and a board cell is always one of the
  thirteen ASCII characters \<^verbatim>\<open>.PRNBQKprnbqk\<close> (see \<open>wf_board\<close> below).
\<close>

definition isupper :: "char \<Rightarrow> bool" where
  "isupper c \<longleftrightarrow> 65 \<le> (of_char c :: nat) \<and> (of_char c :: nat) \<le> 90"

definition islower :: "char \<Rightarrow> bool" where
  "islower c \<longleftrightarrow> 97 \<le> (of_char c :: nat) \<and> (of_char c :: nat) \<le> 122"

definition upper :: "char \<Rightarrow> char" where
  "upper c = (if islower c then char_of ((of_char c :: nat) - 32) else c)"

definition lower :: "char \<Rightarrow> char" where
  "lower c = (if isupper c then char_of ((of_char c :: nat) + 32) else c)"

text \<open>
  List subscription \<^verbatim>\<open>xs[i]\<close> and item assignment \<^verbatim>\<open>xs[i] = v\<close>: a negative index
  counts from the end, and an index outside \<open>[-len, len)\<close> raises \<^verbatim>\<open>IndexError\<close>.
\<close>

definition norm_index :: "'a list \<Rightarrow> int \<Rightarrow> error + nat" where
  "norm_index xs i =
     (if 0 \<le> i \<and> i < int (length xs) then Inr (nat i)
      else if i < 0 \<and> - int (length xs) \<le> i then Inr (nat (int (length xs) + i))
      else Inl IndexError)"

definition getitem :: "'a list \<Rightarrow> int \<Rightarrow> error + 'a" where
  "getitem xs i = (case norm_index xs i of Inl e \<Rightarrow> Inl e | Inr j \<Rightarrow> Inr (xs ! j))"

definition setitem :: "'a list \<Rightarrow> int \<Rightarrow> 'a \<Rightarrow> error + 'a list" where
  "setitem xs i v = (case norm_index xs i of Inl e \<Rightarrow> Inl e | Inr j \<Rightarrow> Inr (xs[j := v]))"

section \<open>The game object\<close>

text \<open>
  The board is a list of rows of one-character strings. The attributes \<^verbatim>\<open>_turn\<close> and
  \<^verbatim>\<open>_current_game_state\<close> only ever hold the string constants below, so they are
  enumerations.
\<close>

type_synonym board = "char list list"

datatype player = White | Black

datatype game_state = UNFINISHED | WHITE_WON | BLACK_WON

record chess_var =
  board :: board
  turn :: player
  current_game_state :: game_state

definition columns :: "char list" where
  "columns = ''abcdefgh''"

definition columns_indexes :: "char \<Rightarrow> int option" where
  "columns_indexes = map_of (zip columns (map int [0..<length columns]))"

text \<open>\<^verbatim>\<open>self._board[r][c]\<close> and \<^verbatim>\<open>self._board[r][c] = v\<close>. The rows are distinct list
  objects, so assigning into one row changes no other.\<close>

definition board_get :: "board \<Rightarrow> int \<Rightarrow> int \<Rightarrow> error + char" where
  "board_get b r c = (case getitem b r of Inl e \<Rightarrow> Inl e | Inr row \<Rightarrow> getitem row c)"

definition board_set :: "board \<Rightarrow> int \<Rightarrow> int \<Rightarrow> char \<Rightarrow> error + board" where
  "board_set b r c v =
     (case getitem b r of Inl e \<Rightarrow> Inl e
      | Inr row \<Rightarrow>
          (case setitem row c v of Inl e \<Rightarrow> Inl e
           | Inr row' \<Rightarrow> setitem b r row'))"

text \<open>\<^verbatim>\<open>initialize_board\<close>: an empty 8x8 grid, then for each \<open>i, x\<close> of
  \<^verbatim>\<open>enumerate('RNBQKBNR')\<close> the four assignments of the loop body. All indices are
  constants within range.\<close>

definition special_pieces :: "char list" where
  "special_pieces = ''RNBQKBNR''"

definition put :: "board \<Rightarrow> nat \<Rightarrow> nat \<Rightarrow> char \<Rightarrow> board" where
  "put b r c v = b[r := (b ! r)[c := v]]"

definition initialize_board :: board where
  "initialize_board =
     foldl (\<lambda>b (i, x). put (put (put (put b 0 i (lower x)) 1 i (CHR ''p'')) 6 i (CHR ''P'')) 7 i x)
       (replicate 8 (replicate 8 (CHR ''.'')))
       (zip [0..<length special_pieces] special_pieces)"

definition init :: chess_var where
  "init = \<lparr>board = initialize_board, turn = White, current_game_state = UNFINISHED\<rparr>"

section \<open>Coordinates\<close>

text \<open>\<^verbatim>\<open>position_index\<close>: \<open>Inr None\<close> is the pair \<^verbatim>\<open>(None, None)\<close>, \<open>Inr (Some (row, col))\<close>
  a pair of indices. The three disjuncts of the guard are tested from left to right.\<close>

definition position_index :: "string \<Rightarrow> error + (int \<times> int) option" where
  "position_index position =
     (if length position \<noteq> 2 then Inr None
      else if position ! 0 \<notin> set columns then Inr None
      else if \<not> isdigit (position ! 1) then Inr None
      else
        (case columns_indexes (position ! 0) of
           None \<Rightarrow> Inl KeyError
         | Some col_index \<Rightarrow>
             (case py_int (position ! 1) of
                Inl e \<Rightarrow> Inl e
              | Inr d \<Rightarrow>
                  (let row_index = 8 - d in
                   if \<not> (0 \<le> col_index \<and> col_index < 8 \<and> 0 \<le> row_index \<and> row_index < 8)
                   then Inr None
                   else Inr (Some (row_index, col_index))))))"

text \<open>Most methods start by parsing both of their arguments, \<^verbatim>\<open>from_position\<close> first.\<close>

definition positions ::
  "string \<Rightarrow> string \<Rightarrow> error + ((int \<times> int) option \<times> (int \<times> int) option)" where
  "positions from_position to_position =
     (case position_index from_position of
        Inl e \<Rightarrow> Inl e
      | Inr pf \<Rightarrow>
          (case position_index to_position of
             Inl e \<Rightarrow> Inl e
           | Inr pt \<Rightarrow> Inr (pf, pt)))"

section \<open>Path clearance\<close>

text \<open>The \<^verbatim>\<open>while\<close> loop of \<^verbatim>\<open>clear_path\<close>, with the loop variables \<open>current_row\<close> and
  \<open>current_col\<close> as arguments.\<close>

partial_function (option) clear_path_loop ::
  "board \<Rightarrow> int \<Rightarrow> int \<Rightarrow> int \<Rightarrow> int \<Rightarrow> int \<Rightarrow> int \<Rightarrow> (error + bool) option" where
  "clear_path_loop b current_row current_col to_row to_col row_step col_step =
     (if current_row \<noteq> to_row \<or> current_col \<noteq> to_col then
        (case board_get b current_row current_col of
           Inl e \<Rightarrow> Some (Inl e)
         | Inr x \<Rightarrow>
             if x \<noteq> CHR ''.'' then Some (Inr False)
             else clear_path_loop b (current_row + row_step) (current_col + col_step)
                    to_row to_col row_step col_step)
      else Some (Inr True))"

declare clear_path_loop.simps [code]

text \<open>With \<^verbatim>\<open>None\<close> coordinates the comparison \<^verbatim>\<open>to_row > from_row\<close> or the sum
  \<^verbatim>\<open>from_row + row_step\<close> raises \<^verbatim>\<open>TypeError\<close>.\<close>

definition clear_path :: "chess_var \<Rightarrow> string \<Rightarrow> string \<Rightarrow> (error + bool) option" where
  "clear_path s from_position to_position =
     (case positions from_position to_position of
        Inl e \<Rightarrow> Some (Inl e)
      | Inr (Some (from_row, from_col), Some (to_row, to_col)) \<Rightarrow>
          (let row_step = (if from_row = to_row then 0 else if to_row > from_row then 1 else -1);
               col_step = (if from_col = to_col then 0 else if to_col > from_col then 1 else -1)
           in clear_path_loop (board s) (from_row + row_step) (from_col + col_step)
                to_row to_col row_step col_step)
      | Inr _ \<Rightarrow> Some (Inl TypeError))"

section \<open>Per-piece rules\<close>

text \<open>\<^verbatim>\<open>self._board[r][c] == '.'\<close>\<close>

definition cell_is_empty :: "chess_var \<Rightarrow> int \<Rightarrow> int \<Rightarrow> error + bool" where
  "cell_is_empty s r c =
     (case board_get (board s) r c of Inl e \<Rightarrow> Inl e | Inr x \<Rightarrow> Inr (x = CHR ''.''))"

definition pawn_move :: "chess_var \<Rightarrow> int \<Rightarrow> int \<Rightarrow> int \<Rightarrow> int \<Rightarrow> error + bool" where
  "pawn_move s from_row from_col to_row to_col =
     (case board_get (board s) from_row from_col of
        Inl e \<Rightarrow> Inl e
      | Inr piece \<Rightarrow>
          (let direction = (if isupper piece then -1 else 1);
               start_row = (if isupper piece then 6 else 1);
               opponent_piece = (if isupper piece then islower else isupper)
           in
           if to_col = from_col then
             (case (if to_row = from_row + direction then cell_is_empty s to_row to_col
                    else Inr False) of
                Inl e \<Rightarrow> Inl e
              | Inr True \<Rightarrow> Inr True
              | Inr False \<Rightarrow>
                  (if from_row = start_row \<and> to_row = from_row + 2 * direction then
                     (case cell_is_empty s (from_row + direction) to_col of
                        Inl e \<Rightarrow> Inl e
                      | Inr False \<Rightarrow> Inr False
                      | Inr True \<Rightarrow> cell_is_empty s to_row to_col)
                   else Inr False))
           else if \<bar>to_col - from_col\<bar> = 1 \<and> to_row = from_row + direction then
             (case board_get (board s) to_row to_col of
                Inl e \<Rightarrow> Inl e
              | Inr x \<Rightarrow> Inr (x \<noteq> CHR ''.'' \<and> opponent_piece x))
           else Inr False))"

text \<open>In \<^verbatim>\<open>rook_move\<close> the comparisons \<^verbatim>\<open>from_row == to_row\<close> are defined on
  \<^verbatim>\<open>None\<close> too: two unparsed positions compare equal, one unparsed position
  compares different from a number.\<close>

definition rook_move :: "chess_var \<Rightarrow> string \<Rightarrow> string \<Rightarrow> (error + bool) option" where
  "rook_move s from_position to_position =
     (case positions from_position to_position of
        Inl e \<Rightarrow> Some (Inl e)
      | Inr (Some (from_row, from_col), Some (to_row, to_col)) \<Rightarrow>
          if from_row = to_row \<or> from_col = to_col then clear_path s from_position to_position
          else Some (Inr False)
      | Inr (None, None) \<Rightarrow> clear_path s from_position to_position
      | Inr _ \<Rightarrow> Some (Inr False))"

definition knight_move :: "chess_var \<Rightarrow> string \<Rightarrow> string \<Rightarrow> error + bool" where
  "knight_move s from_position to_position =
     (case positions from_position to_position of
        Inl e \<Rightarrow> Inl e
      | Inr (Some (from_row, from_col), Some (to_row, to_col)) \<Rightarrow>
          (let row_diff = \<bar>to_row - from_row\<bar>; col_diff = \<bar>to_col - from_col\<bar>
           in Inr ((row_diff, col_diff) \<in> set [(2, 1), (1, 2)]))
      | Inr _ \<Rightarrow> Inl TypeError)"

definition bishop_move :: "chess_var \<Rightarrow> string \<Rightarrow> string \<Rightarrow> (error + bool) option" where
  "bishop_move s from_position to_position =
     (case positions from_position to_position of
        Inl e \<Rightarrow> Some (Inl e)
      | Inr (Some (from_row, from_col), Some (to_row, to_col)) \<Rightarrow>
          if \<bar>to_row - from_row\<bar> = \<bar>to_col - from_col\<bar>
          then clear_path s from_position to_position
          else Some (Inr False)
      | Inr _ \<Rightarrow> Some (Inl TypeError))"

text \<open>\<^verbatim>\<open>rook_move(...) or bishop_move(...)\<close>: the bishop rule runs only when the rook
  rule returned false.\<close>

definition queen_move :: "chess_var \<Rightarrow> string \<Rightarrow> string \<Rightarrow> (error + bool) option" where
  "queen_move s from_position to_position =
     (case rook_move s from_position to_position of
        None \<Rightarrow> None
      | Some (Inl e) \<Rightarrow> Some (Inl e)
      | Some (Inr True) \<Rightarrow> Some (Inr True)
      | Some (Inr False) \<Rightarrow> bishop_move s from_position to_position)"

definition king_move :: "chess_var \<Rightarrow> string \<Rightarrow> string \<Rightarrow> error + bool" where
  "king_move s from_position to_position =
     (case positions from_position to_position of
        Inl e \<Rightarrow> Inl e
      | Inr (Some (from_row, from_col), Some (to_row, to_col)) \<Rightarrow>
          Inr (\<bar>to_row - from_row\<bar> \<le> 1 \<and> \<bar>to_col - from_col\<bar> \<le> 1)
      | Inr _ \<Rightarrow> Inl TypeError)"

section \<open>Move legality\<close>

text \<open>\<^verbatim>\<open>valid_move\<close>. The dictionary \<^verbatim>\<open>move_funcs\<close> has the six keys
  \<^verbatim>\<open>P R N B Q K\<close>; the lookup by \<^verbatim>\<open>piece.upper()\<close> is the chain of comparisons below.\<close>

definition valid_move :: "chess_var \<Rightarrow> string \<Rightarrow> string \<Rightarrow> (error + bool) option" where
  "valid_move s from_position to_position =
     (case positions from_position to_position of
        Inl e \<Rightarrow> Some (Inl e)
      | Inr (Some (from_row, from_col), Some (to_row, to_col)) \<Rightarrow>
          (case board_get (board s) from_row from_col of
             Inl e \<Rightarrow> Some (Inl e)
           | Inr piece \<Rightarrow>
               (case board_get (board s) to_row to_col of
                  Inl e \<Rightarrow> Some (Inl e)
                | Inr target \<Rightarrow>
                    if piece = CHR ''.'' then Some (Inr False)
                    else if (turn s = White \<and> islower piece) \<or> (turn s = Black \<and> isupper piece)
                    then Some (Inr False)
                    else if (turn s = White \<and> isupper target) \<or> (turn s = Black \<and> islower target)
                    then Some (Inr False)
                    else
                      (let piece_type = upper piece in
                       if piece_type = CHR ''P''
                       then Some (pawn_move s from_row from_col to_row to_col)
                       else if piece_type = CHR ''R''
                       then rook_move s from_position to_position
                       else if piece_type = CHR ''N''
                       then Some (knight_move s from_position to_position)
                       else if piece_type = CHR ''B''
                       then bishop_move s from_position to_position
                       else if piece_type = CHR ''Q''
                       then queen_move s from_position to_position
                       else if piece_type = CHR ''K''
                       then Some (king_move s from_position to_position)
                       else Some (Inr False))))
      | Inr _ \<Rightarrow> Some (Inr False))"

section \<open>Move execution\<close>

text \<open>\<^verbatim>\<open>move_piece\<close>: subscripting a list with \<^verbatim>\<open>None\<close> raises \<^verbatim>\<open>TypeError\<close>.\<close>

definition move_piece :: "chess_var \<Rightarrow> string \<Rightarrow> string \<Rightarrow> error + chess_var" where
  "move_piece s from_position to_position =
     (case positions from_position to_position of
        Inl e \<Rightarrow> Inl e
      | Inr (Some (from_row, from_col), Some (to_row, to_col)) \<Rightarrow>
          (case board_get (board s) from_row from_col of
             Inl e \<Rightarrow> Inl e
           | Inr piece \<Rightarrow>
               (case board_set (board s) to_row to_col piece of
                  Inl e \<Rightarrow> Inl e
                | Inr b1 \<Rightarrow>
                    (case board_set b1 from_row from_col (CHR ''.'') of
                       Inl e \<Rightarrow> Inl e
                     | Inr b2 \<Rightarrow> Inr (s\<lparr>board := b2\<rparr>))))
      | Inr _ \<Rightarrow> Inl TypeError)"

text \<open>The body of the two nested \<^verbatim>\<open>for\<close> statements of \<^verbatim>\<open>explode_capture\<close>, run
  over the offsets \<open>(dr, dc)\<close> in the order the iteration visits them.\<close>

fun explode_cells :: "chess_var \<Rightarrow> int \<Rightarrow> int \<Rightarrow> (int \<times> int) list \<Rightarrow> error + chess_var" where
  "explode_cells s row col [] = Inr s"
| "explode_cells s row col ((dr, dc) # rest) =
     (let r = row + dr; c = col + dc in
      if 0 \<le> r \<and> r < 8 \<and> 0 \<le> c \<and> c < 8 then
        (case board_get (board s) r c of
           Inl e \<Rightarrow> Inl e
         | Inr piece \<Rightarrow>
             if piece \<noteq> CHR ''.'' then
               (let s1 = (if upper piece = CHR ''K''
                          then s\<lparr>current_game_state :=
                                   (if islower piece then BLACK_WON else WHITE_WON)\<rparr>
                          else s)
                in case board_set (board s1) r c (CHR ''.'') of
                     Inl e \<Rightarrow> Inl e
                   | Inr b1 \<Rightarrow> explode_cells (s1\<lparr>board := b1\<rparr>) row col rest)
             else explode_cells s row col rest)
      else explode_cells s row col rest)"

definition offsets :: "(int \<times> int) list" where
  "offsets = concat (map (\<lambda>dr. map (\<lambda>dc. (dr, dc)) [-1, 0, 1]) [-1, 0, 1])"

definition explode_capture :: "chess_var \<Rightarrow> string \<Rightarrow> error + chess_var" where
  "explode_capture s position =
     (case position_index position of
        Inl e \<Rightarrow> Inl e
      | Inr None \<Rightarrow> Inl TypeError
      | Inr (Some (row, col)) \<Rightarrow> explode_cells s row col offsets)"

text \<open>The promotion branch of \<^verbatim>\<open>make_move\<close> (taken when the target square was empty).\<close>

definition promote :: "chess_var \<Rightarrow> char \<Rightarrow> int \<Rightarrow> int \<Rightarrow> error + chess_var" where
  "promote s moving_piece to_row to_col =
     (if upper moving_piece = CHR ''P'' then
        (if (isupper moving_piece \<and> to_row = 0) \<or> (islower moving_piece \<and> to_row = 7) then
           (case board_set (board s) to_row to_col
                   (if isupper moving_piece then CHR ''Q'' else CHR ''q'') of
              Inl e \<Rightarrow> Inl e
            | Inr b1 \<Rightarrow> Inr (s\<lparr>board := b1\<rparr>))
         else Inr s)
      else Inr s)"

text \<open>The win check and the turn switch that end \<^verbatim>\<open>make_move\<close>.\<close>

definition check_win :: "chess_var \<Rightarrow> chess_var" where
  "check_win s =
     (if \<not> (\<exists>row \<in> set (board s). CHR ''K'' \<in> set row) then s\<lparr>current_game_state := BLACK_WON\<rparr>
      else if \<not> (\<exists>row \<in> set (board s). CHR ''k'' \<in> set row) then s\<lparr>current_game_state := WHITE_WON\<rparr>
      else s)"

definition switch_turn :: "chess_var \<Rightarrow> chess_var" where
  "switch_turn s =
     (if current_game_state s = UNFINISHED
      then s\<lparr>turn := (if turn s = White then Black else White)\<rparr>
      else s)"

text \<open>\<^verbatim>\<open>make_move\<close> returns the boolean together with the object's new state; the
  two messages it prints are left out. A call that raises is the exception alone: the
  state of the object after an exception is not modelled.\<close>

definition make_move ::
  "chess_var \<Rightarrow> string \<Rightarrow> string \<Rightarrow> (error + (bool \<times> chess_var)) option" where
  "make_move s from_position to_position =
     (if current_game_state s \<noteq> UNFINISHED then Some (Inr (False, s))
      else
        (case valid_move s from_position to_position of
           None \<Rightarrow> None
         | Some (Inl e) \<Rightarrow> Some (Inl e)
         | Some (Inr False) \<Rightarrow> Some (Inr (False, s))
         | Some (Inr True) \<Rightarrow>
             Some
               (case positions from_position to_position of
                  Inl e \<Rightarrow> Inl e
                | Inr (Some (from_row, from_col), Some (to_row, to_col)) \<Rightarrow>
                    (case board_get (board s) to_row to_col of
                       Inl e \<Rightarrow> Inl e
                     | Inr target_piece \<Rightarrow>
                         (case board_get (board s) from_row from_col of
                            Inl e \<Rightarrow> Inl e
                          | Inr moving_piece \<Rightarrow>
                              (case move_piece s from_position to_position of
                                 Inl e \<Rightarrow> Inl e
                               | Inr s1 \<Rightarrow>
                                   (case (if target_piece \<noteq> CHR ''.''
                                          then explode_capture s1 to_position
                                          else promote s1 moving_piece to_row to_col) of
                                      Inl e \<Rightarrow> Inl e
                                    | Inr s2 \<Rightarrow> Inr (True, switch_turn (check_win s2))))))
                | Inr _ \<Rightarrow> Inl TypeError)))"

section \<open>Vocabulary of the specification\<close>

text \<open>
  The definitions of this section are not translations of code: they say, in the words of
  the specification, what the theorems below state about the code.
\<close>

subsection \<open>Squares and boards\<close>

text \<open>A square is a pair of indices within the 8x8 grid; \<open>cell b r c\<close> is what the
  square holds. A well-formed board has eight rows of eight cells, each cell one of the
  thirteen glyphs the code ever writes: \<^verbatim>\<open>.\<close> for an empty square, an upper-case
  letter for a White piece and a lower-case letter for a Black piece.\<close>

definition on_board :: "int \<Rightarrow> int \<Rightarrow> bool" where
  "on_board r c \<longleftrightarrow> 0 \<le> r \<and> r < 8 \<and> 0 \<le> c \<and> c < 8"

definition cell :: "board \<Rightarrow> int \<Rightarrow> int \<Rightarrow> char" where
  "cell b r c = b ! nat r ! nat c"

definition glyphs :: "char list" where
  "glyphs = ''.PRNBQKprnbqk''"

definition wf_board :: "board \<Rightarrow> bool" where
  "wf_board b \<longleftrightarrow> length b = 8 \<and> (\<forall>row \<in> set b. length row = 8 \<and> set row \<subseteq> set glyphs)"

text \<open>The algebraic name of the square in row \<open>r\<close> and column \<open>c\<close>: the column letter,
  then the rank digit \<open>8 - r\<close> (character code \<open>48 + 8 - r\<close>).\<close>

definition algebraic :: "nat \<times> nat \<Rightarrow> string" where
  "algebraic sq = [columns ! snd sq, char_of (56 - fst sq)]"

text \<open>Colour and kind of the piece a glyph stands for.\<close>

datatype kind = Pawn | Rook | Knight | Bishop | Queen | King

definition colour_of :: "char \<Rightarrow> player option" where
  "colour_of x =
     (if x \<in> set ''PRNBQK'' then Some White else if x \<in> set ''prnbqk'' then Some Black else None)"

definition kind_of :: "char \<Rightarrow> kind option" where
  "kind_of =
     map_of [(CHR ''P'', Pawn), (CHR ''R'', Rook), (CHR ''N'', Knight), (CHR ''B'', Bishop),
             (CHR ''Q'', Queen), (CHR ''K'', King),
             (CHR ''p'', Pawn), (CHR ''r'', Rook), (CHR ''n'', Knight), (CHR ''b'', Bishop),
             (CHR ''q'', Queen), (CHR ''k'', King)]"

definition opponent :: "player \<Rightarrow> player" where
  "opponent p = (case p of White \<Rightarrow> Black | Black \<Rightarrow> White)"

subsection \<open>Lines of sight\<close>

text \<open>Two squares are aligned when they share a rank, a file or a diagonal. The squares
  strictly between two aligned squares are those at \<open>k = 1, \<dots>, n - 1\<close> unit steps from
  the first towards the second, \<open>n\<close> being their distance; the path is empty when all of
  them are.\<close>

definition aligned :: "int \<Rightarrow> int \<Rightarrow> int \<Rightarrow> int \<Rightarrow> bool" where
  "aligned fr fc tr tc \<longleftrightarrow> fr = tr \<or> fc = tc \<or> \<bar>tr - fr\<bar> = \<bar>tc - fc\<bar>"

definition between :: "int \<Rightarrow> int \<Rightarrow> int \<Rightarrow> int \<Rightarrow> (int \<times> int) list" where
  "between fr fc tr tc =
     map (\<lambda>k. (fr + k * sgn (tr - fr), fc + k * sgn (tc - fc)))
       [1..max \<bar>tr - fr\<bar> \<bar>tc - fc\<bar> - 1]"

definition path_empty :: "board \<Rightarrow> int \<Rightarrow> int \<Rightarrow> int \<Rightarrow> int \<Rightarrow> bool" where
  "path_empty b fr fc tr tc \<longleftrightarrow> (\<forall>(r, c) \<in> set (between fr fc tr tc). cell b r c = CHR ''.'')"

subsection \<open>Legal moves\<close>

text \<open>The geometric pattern of each kind of piece, from \<open>(fr, fc)\<close> to \<open>(tr, tc)\<close>.
  White pawns move towards row 0 and start on row 6, Black pawns move towards row 7 and
  start on row 1.\<close>

definition pawn_pattern :: "board \<Rightarrow> player \<Rightarrow> int \<Rightarrow> int \<Rightarrow> int \<Rightarrow> int \<Rightarrow> bool" where
  "pawn_pattern b colour fr fc tr tc =
     (let forward = (case colour of White \<Rightarrow> -1 | Black \<Rightarrow> 1);
          start_rank = (case colour of White \<Rightarrow> 6 | Black \<Rightarrow> 1)
      in (tc = fc \<and> tr = fr + forward \<and> cell b tr tc = CHR ''.'') \<or>
         (tc = fc \<and> fr = start_rank \<and> tr = fr + 2 * forward \<and>
            cell b (fr + forward) fc = CHR ''.'' \<and> cell b tr tc = CHR ''.'') \<or>
         (\<bar>tc - fc\<bar> = 1 \<and> tr = fr + forward \<and>
            colour_of (cell b tr tc) = Some (opponent colour)))"

definition rook_pattern :: "board \<Rightarrow> int \<Rightarrow> int \<Rightarrow> int \<Rightarrow> int \<Rightarrow> bool" where
  "rook_pattern b fr fc tr tc \<longleftrightarrow> (fr = tr \<or> fc = tc) \<and> path_empty b fr fc tr tc"

definition knight_pattern :: "int \<Rightarrow> int \<Rightarrow> int \<Rightarrow> int \<Rightarrow> bool" where
  "knight_pattern fr fc tr tc \<longleftrightarrow>
     (\<bar>tr - fr\<bar> = 1 \<and> \<bar>tc - fc\<bar> = 2) \<or> (\<bar>tr - fr\<bar> = 2 \<and> \<bar>tc - fc\<bar> = 1)"

definition bishop_pattern :: "board \<Rightarrow> int \<Rightarrow> int \<Rightarrow> int \<Rightarrow> int \<Rightarrow> bool" where
  "bishop_pattern b fr fc tr tc \<longleftrightarrow>
     \<bar>tr - fr\<bar> = \<bar>tc - fc\<bar> \<and> tr \<noteq> fr \<and> path_empty b fr fc tr tc"

definition king_pattern :: "int \<Rightarrow> int \<Rightarrow> int \<Rightarrow> int \<Rightarrow> bool" where
  "king_pattern fr fc tr tc \<longleftrightarrow> \<bar>tr - fr\<bar> \<le> 1 \<and> \<bar>tc - fc\<bar> \<le> 1"

fun pattern_ok :: "board \<Rightarrow> player \<Rightarrow> kind \<Rightarrow> int \<Rightarrow> int \<Rightarrow> int \<Rightarrow> int \<Rightarrow> bool" where
  "pattern_ok b colour Pawn fr fc tr tc = pawn_pattern b colour fr fc tr tc"
| "pattern_ok b colour Rook fr fc tr tc = rook_pattern b fr fc tr tc"
| "pattern_ok b colour Knight fr fc tr tc = knight_pattern fr fc tr tc"
| "pattern_ok b colour Bishop fr fc tr tc = bishop_pattern b fr fc tr tc"
| "pattern_ok b colour Queen fr fc tr tc =
     (rook_pattern b fr fc tr tc \<or> bishop_pattern b fr fc tr tc)"
| "pattern_ok b colour King fr fc tr tc = king_pattern fr fc tr tc"

text \<open>A move is legal when both strings parse to squares of the board, the from-square
  holds a piece of the player to move, the to-square holds no piece of that player, and
  the pattern of the moving piece accepts the move.\<close>

definition is_legal :: "chess_var \<Rightarrow> string \<Rightarrow> string \<Rightarrow> bool" where
  "is_legal s from_position to_position =
     (case (position_index from_position, position_index to_position) of
        (Inr (Some (fr, fc)), Inr (Some (tr, tc))) \<Rightarrow>
          colour_of (cell (board s) fr fc) = Some (turn s) \<and>
          colour_of (cell (board s) tr tc) \<noteq> Some (turn s) \<and>
          (case kind_of (cell (board s) fr fc) of
             None \<Rightarrow> False
           | Some k \<Rightarrow> pattern_ok (board s) (turn s) k fr fc tr tc)
      | _ \<Rightarrow> False)"

subsection \<open>Effects of a move\<close>

text \<open>The board after the piece on \<open>(fr, fc)\<close> has been relocated to \<open>(tr, tc)\<close>; the
  squares of the 3x3 neighbourhood of \<open>(tr, tc)\<close>; the non-capturing moves that end in a
  promotion; and one pass of the body of the explosion loop, on the square \<open>(r, c)\<close>.\<close>

definition relocate :: "board \<Rightarrow> int \<Rightarrow> int \<Rightarrow> int \<Rightarrow> int \<Rightarrow> board" where
  "relocate b fr fc tr tc =
     put (put b (nat tr) (nat tc) (cell b fr fc)) (nat fr) (nat fc) (CHR ''.'')"

definition in_blast :: "int \<Rightarrow> int \<Rightarrow> int \<Rightarrow> int \<Rightarrow> bool" where
  "in_blast tr tc r c \<longleftrightarrow> \<bar>r - tr\<bar> \<le> 1 \<and> \<bar>c - tc\<bar> \<le> 1"

definition promoting :: "char \<Rightarrow> int \<Rightarrow> bool" where
  "promoting piece to_row \<longleftrightarrow>
     (piece = CHR ''P'' \<and> to_row = 0) \<or> (piece = CHR ''p'' \<and> to_row = 7)"

definition explode_one :: "chess_var \<Rightarrow> int \<Rightarrow> int \<Rightarrow> chess_var" where
  "explode_one s r c =
     (if on_board r c \<and> cell (board s) r c \<noteq> CHR ''.'' then
        (if upper (cell (board s) r c) = CHR ''K''
         then s\<lparr>current_game_state :=
                  (if islower (cell (board s) r c) then BLACK_WON else WHITE_WON)\<rparr>
         else s)\<lparr>board := put (board s) (nat r) (nat c) (CHR ''.'')\<rparr>
      else s)"

subsection \<open>Kings and the outcome\<close>

text \<open>The number of cells of a board that hold a given glyph, and the game state that a
  scan of the whole board gives, the White King looked for first.\<close>

definition count_piece :: "board \<Rightarrow> char \<Rightarrow> nat" where
  "count_piece b x = count_list (concat b) x"

definition at_most_one_king :: "board \<Rightarrow> bool" where
  "at_most_one_king b \<longleftrightarrow> count_piece b (CHR ''K'') \<le> 1 \<and> count_piece b (CHR ''k'') \<le> 1"

definition rescan :: "board \<Rightarrow> game_state" where
  "rescan b =
     (if count_piece b (CHR ''K'') = 0 then BLACK_WON
      else if count_piece b (CHR ''k'') = 0 then WHITE_WON
      else UNFINISHED)"

subsection \<open>Play\<close>

text \<open>The states a game can be in: the initial one, and those any call of
  \<^verbatim>\<open>make_move\<close> that returns leaves behind. \<open>play\<close> runs a list of calls one after the
  other.\<close>

inductive reachable :: "chess_var \<Rightarrow> bool" where
  start: "reachable init"
| move: "reachable s \<Longrightarrow> make_move s f t = Some (Inr (ok, s')) \<Longrightarrow> reachable s'"

fun play :: "chess_var \<Rightarrow> (string \<times> string) list \<Rightarrow> (error + (bool \<times> chess_var)) option" where
  "play s [] = Some (Inr (True, s))"
| "play s ((f, t) # ms) =
     (case make_move s f t of
        Some (Inr (ok, s')) \<Rightarrow> play s' ms
      | r \<Rightarrow> r)"

subsection \<open>Example positions\<close>

text \<open>The position after 1. e4; a position in which White has already won.\<close>

definition after_e2e4 :: chess_var where
  "after_e2e4 =
     \<lparr>board = [''rnbqkbnr'', ''pppppppp'', ''........'', ''........'',
               ''....P...'', ''........'', ''PPPP.PPP'', ''RNBQKBNR''],
      turn = Black, current_game_state = UNFINISHED\<rparr>"

definition finished_game :: chess_var where
  "finished_game =
     \<lparr>board = [''rnbq.bnr'', ''pppppppp'', ''........'', ''........'',
               ''........'', ''........'', ''PPPPPPPP'', ''RNBQKBNR''],
      turn = White, current_game_state = WHITE_WON\<rparr>"

text \<open>A White rook on e1 about to capture a Black knight on e5, with pawns on d6, f6 and
  d4 next to the knight, and the position after the capture.\<close>

definition capture_position :: chess_var where
  "capture_position =
     \<lparr>board = [''....k...'', ''........'', ''...p.p..'', ''....n...'',
               ''...P....'', ''........'', ''........'', ''K...R...''],
      turn = White, current_game_state = UNFINISHED\<rparr>"

definition after_capture :: chess_var where
  "after_capture =
     \<lparr>board = [''....k...'', ''........'', ''........'', ''........'',
               ''........'', ''........'', ''........'', ''K.......''],
      turn = Black, current_game_state = UNFINISHED\<rparr>"

text \<open>A White pawn on e7 about to move to the empty square e8, and the position after
  the move.\<close>

definition promotion_position :: chess_var where
  "promotion_position =
     \<lparr>board = [''k.......'', ''....P...'', ''........'', ''........'',
               ''........'', ''........'', ''........'', ''K.......''],
      turn = White, current_game_state = UNFINISHED\<rparr>"

definition after_promotion :: chess_var where
  "after_promotion =
     \<lparr>board = [''k...Q...'', ''........'', ''........'', ''........'',
               ''........'', ''........'', ''........'', ''K.......''],
      turn = Black, current_game_state = UNFINISHED\<rparr>"

text \<open>The position after 1. e4 e5 2. Ke2 Ke7 3. Ke3 Ke6 4. Kf4 Kf5, White to move, and
  the position after the White King has then captured the Black King on f5.\<close>

definition kings_adjacent :: chess_var where
  "kings_adjacent =
     \<lparr>board = [''rnbq.bnr'', ''pppp.ppp'', ''........'', ''....pk..'',
               ''....PK..'', ''........'', ''PPPP.PPP'', ''RNBQ.BNR''],
      turn = White, current_game_state = UNFINISHED\<rparr>"

definition kings_gone :: chess_var where
  "kings_gone =
     \<lparr>board = [''rnbq.bnr'', ''pppp.ppp'', ''........'', ''........'',
               ''........'', ''........'', ''PPPP.PPP'', ''RNBQ.BNR''],
      turn = White, current_game_state = BLACK_WON\<rparr>"

section \<open>Supporting lemmas\<close>

subsection \<open>Steps of a move\<close>

lemma explode_cells_turn:
  "explode_cells s row col ds = Inr s' \<Longrightarrow> turn s' = turn s"
proof (induction s row col ds rule: explode_cells.induct)
  case (1 s row col)
  then show ?case by simp
next
  case (2 s row col dr dc rest)
  then show ?case
    by (auto simp: Let_def split: if_splits sum.splits)
qed

lemma explode_capture_turn:
  "explode_capture s p = Inr s' \<Longrightarrow> turn s' = turn s"
  by (auto simp: explode_capture_def split: sum.splits option.splits dest: explode_cells_turn)

lemma move_piece_turn:
  "move_piece s f t = Inr s' \<Longrightarrow> turn s' = turn s"
  by (auto simp: move_piece_def split: sum.splits option.splits prod.splits)

lemma promote_turn:
  "promote s p r c = Inr s' \<Longrightarrow> turn s' = turn s"
  by (auto simp: promote_def split: sum.splits if_splits)

lemma check_win_turn: "turn (check_win s) = turn s"
  by (simp add: check_win_def)

lemma make_move_failure:
  "make_move s f t = Some (Inr (False, s')) \<Longrightarrow> s' = s"
  by (auto simp: make_move_def split: if_splits option.splits sum.splits bool.splits prod.splits)

lemma make_move_success_steps:
  assumes "make_move s f t = Some (Inr (True, s'))"
  obtains s1 s2 fr fc tr tc target_piece moving_piece where
    "current_game_state s = UNFINISHED"
    "valid_move s f t = Some (Inr True)"
    "position_index f = Inr (Some (fr, fc))"
    "position_index t = Inr (Some (tr, tc))"
    "board_get (board s) tr tc = Inr target_piece"
    "board_get (board s) fr fc = Inr moving_piece"
    "move_piece s f t = Inr s1"
    "(if target_piece \<noteq> CHR ''.'' then explode_capture s1 t else promote s1 moving_piece tr tc) = Inr s2"
    "s' = switch_turn (check_win s2)"
  using assms
  by (auto simp: make_move_def positions_def split: if_splits option.splits sum.splits bool.splits prod.splits)

subsection \<open>Coordinates\<close>

lemma columns_indexes_eq:
  "columns_indexes = map_of [(CHR ''a'', 0), (CHR ''b'', 1), (CHR ''c'', 2), (CHR ''d'', 3),
     (CHR ''e'', 4), (CHR ''f'', 5), (CHR ''g'', 6), (CHR ''h'', 7)]"
  by (simp add: columns_indexes_def columns_def upt_rec)

lemma columns_indexes_nth:
  assumes "c < 8"
  shows "columns_indexes (columns ! c) = Some (int c)"
proof -
  from assms have "c \<in> {0, 1, 2, 3, 4, 5, 6, 7}" by auto
  then show ?thesis
    by (auto simp: columns_indexes_eq columns_def)
qed

lemma columns_nth_mem: "c < 8 \<Longrightarrow> columns ! c \<in> set columns"
  by (rule nth_mem) (simp add: columns_def)

lemma position_index_range:
  "position_index p = Inr (Some (r, c)) \<Longrightarrow> 0 \<le> r \<and> r < 8 \<and> 0 \<le> c \<and> c < 8"
  by (auto simp: position_index_def Let_def split: if_splits option.splits sum.splits)

lemma position_index_algebraic:
  assumes "r < 8" "c < 8"
  shows "position_index (algebraic (r, c)) = Inr (Some (int r, int c))"
proof -
  have d: "(of_char (char_of (56 - r)) :: nat) = 56 - r"
    using assms by simp
  have "isdigit (char_of (56 - r))"
    using assms unfolding isdigit_def d by arith
  moreover have "py_int (char_of (56 - r)) = Inr (8 - int r)"
    using assms unfolding py_int_def d by (auto simp: of_nat_diff)
  ultimately show ?thesis
    using assms
    by (simp add: position_index_def algebraic_def columns_nth_mem columns_indexes_nth)
qed

lemma position_index_parsed:
  assumes "position_index p = Inr (Some (r, c))"
  shows "p = algebraic (nat r, nat c)"
proof -
  from assms have len: "length p = 2" and col: "p ! 0 \<in> set columns"
    and ci: "columns_indexes (p ! 0) = Some c" and d: "py_int (p ! 1) = Inr (8 - r)"
    by (auto simp: position_index_def Let_def split: if_splits option.splits sum.splits)
  from assms have rng: "0 \<le> r" "r < 8" "0 \<le> c" "c < 8"
    using position_index_range by blast+
  from ci col have "p ! 0 = columns ! nat c"
    by (auto simp: columns_indexes_eq columns_def split: if_splits)
  moreover from d rng have "(of_char (p ! 1) :: nat) = 56 - nat r"
    by (auto simp: py_int_def split: if_splits)
  then have "p ! 1 = char_of (56 - nat r)"
    by (metis char_of_char)
  moreover from len obtain x y where "p = [x, y]"
    by (cases p; cases "tl p") auto
  ultimately show ?thesis
    by (simp add: algebraic_def)
qed

subsection \<open>Well-formed boards\<close>

lemma getitem_in_range:
  "0 \<le> i \<Longrightarrow> i < int (length xs) \<Longrightarrow> getitem xs i = Inr (xs ! nat i)"
  by (simp add: getitem_def norm_index_def)

lemma setitem_in_range:
  "0 \<le> i \<Longrightarrow> i < int (length xs) \<Longrightarrow> setitem xs i v = Inr (xs[nat i := v])"
  by (simp add: setitem_def norm_index_def)

lemma wf_board_row:
  "wf_board b \<Longrightarrow> r < 8 \<Longrightarrow> length (b ! r) = 8 \<and> set (b ! r) \<subseteq> set glyphs"
  by (simp add: wf_board_def)

lemma board_get_wf:
  assumes "wf_board b" "on_board r c"
  shows "board_get b r c = Inr (cell b r c)"
proof -
  from assms have r: "0 \<le> r" "r < int (length b)" "nat r < 8"
    by (auto simp: wf_board_def on_board_def)
  with assms have "0 \<le> c" "c < int (length (b ! nat r))"
    using wf_board_row [of b "nat r"] by (auto simp: on_board_def)
  with r show ?thesis
    by (simp add: board_get_def getitem_in_range cell_def)
qed

lemma board_set_wf:
  assumes "wf_board b" "on_board r c"
  shows "board_set b r c v = Inr (put b (nat r) (nat c) v)"
proof -
  from assms have r: "0 \<le> r" "r < int (length b)" "nat r < 8"
    by (auto simp: wf_board_def on_board_def)
  with assms have "0 \<le> c" "c < int (length (b ! nat r))"
    using wf_board_row [of b "nat r"] by (auto simp: on_board_def)
  with r show ?thesis
    by (simp add: board_set_def getitem_in_range setitem_in_range put_def)
qed

lemma cell_glyph:
  assumes "wf_board b" "on_board r c"
  shows "cell b r c \<in> set glyphs"
proof -
  from assms have "nat r < 8" "nat c < 8" by (auto simp: on_board_def)
  with assms(1) show ?thesis
    using wf_board_row [of b "nat r"] nth_mem [of "nat c" "b ! nat r"]
    by (auto simp: cell_def)
qed

lemma wf_board_put:
  assumes "wf_board b" "v \<in> set glyphs"
  shows "wf_board (put b r c v)"
proof (cases "r < length b")
  case False
  then show ?thesis using assms by (simp add: put_def list_update_beyond)
next
  case True
  let ?row = "(b ! r)[c := v]"
  from True assms have old: "length (b ! r) = 8" "set (b ! r) \<subseteq> set glyphs"
    by (auto simp: wf_board_def)
  have "set ?row \<subseteq> insert v (set (b ! r))"
    by (rule set_update_subset_insert)
  with old assms have new: "length ?row = 8" "set ?row \<subseteq> set glyphs"
    by auto
  have "set (b[r := ?row]) \<subseteq> insert ?row (set b)"
    by (rule set_update_subset_insert)
  with new assms show ?thesis
    unfolding wf_board_def put_def by auto
qed

lemma cell_put:
  assumes "wf_board b" "on_board r c" "on_board r' c'"
  shows "cell (put b (nat r) (nat c) v) r' c' = (if r' = r \<and> c' = c then v else cell b r' c')"
proof -
  from assms have "nat r < length b" "nat r' < length b"
    "nat c < length (b ! nat r)" "nat c' < length (b ! nat r')"
    using wf_board_row [of b "nat r"] wf_board_row [of b "nat r'"]
    by (auto simp: on_board_def wf_board_def)
  moreover from assms have "nat r' = nat r \<longleftrightarrow> r' = r" "nat c' = nat c \<longleftrightarrow> c' = c"
    by (auto simp: on_board_def)
  ultimately show ?thesis
    by (auto simp: cell_def put_def nth_list_update)
qed

lemma has_piece_cell:
  assumes "wf_board b"
  shows "(\<exists>row \<in> set b. x \<in> set row) \<longleftrightarrow> (\<exists>r c. on_board r c \<and> cell b r c = x)"
proof
  assume "\<exists>row \<in> set b. x \<in> set row"
  then obtain row where "row \<in> set b" "x \<in> set row" by blast
  then obtain i j where i: "i < length b" "b ! i = row" and j: "j < length row" "row ! j = x"
    by (auto simp: in_set_conv_nth)
  with assms have "i < 8" "j < 8"
    using wf_board_row [of b i] by (auto simp: wf_board_def)
  with i j have "on_board (int i) (int j) \<and> cell b (int i) (int j) = x"
    by (simp add: on_board_def cell_def)
  then show "\<exists>r c. on_board r c \<and> cell b r c = x" by blast
next
  assume "\<exists>r c. on_board r c \<and> cell b r c = x"
  then obtain r c where rc: "on_board r c" "cell b r c = x" by blast
  with assms have "nat r < length b" "nat c < length (b ! nat r)"
    using wf_board_row [of b "nat r"] by (auto simp: on_board_def wf_board_def)
  with rc have "b ! nat r \<in> set b" "x \<in> set (b ! nat r)"
    by (auto simp: cell_def)
  then show "\<exists>row \<in> set b. x \<in> set row" by blast
qed

lemma position_index_on_board:
  "position_index p = Inr (Some (r, c)) \<Longrightarrow> on_board r c"
  using position_index_range [of p r c] by (simp add: on_board_def)

lemma wf_board_relocate:
  assumes "wf_board b" "on_board fr fc"
  shows "wf_board (relocate b fr fc tr tc)"
proof -
  have "wf_board (put b (nat tr) (nat tc) (cell b fr fc))"
    using assms by (simp add: wf_board_put cell_glyph)
  moreover have "CHR ''.'' \<in> set glyphs"
    by (simp add: glyphs_def)
  ultimately show ?thesis
    by (simp add: relocate_def wf_board_put)
qed

lemma cell_relocate:
  assumes "wf_board b" "on_board fr fc" "on_board tr tc" "on_board r c"
  shows "cell (relocate b fr fc tr tc) r c =
    (if r = fr \<and> c = fc then CHR ''.'' else if r = tr \<and> c = tc then cell b fr fc else cell b r c)"
proof -
  have "wf_board (put b (nat tr) (nat tc) (cell b fr fc))"
    using assms by (intro wf_board_put) (auto simp: cell_glyph)
  then show ?thesis
    using assms by (simp add: relocate_def cell_put)
qed

lemma move_piece_wf:
  assumes "wf_board (board s)" "position_index f = Inr (Some (fr, fc))"
    "position_index t = Inr (Some (tr, tc))"
  shows "move_piece s f t = Inr (s\<lparr>board := relocate (board s) fr fc tr tc\<rparr>)"
proof -
  have ob: "on_board fr fc" "on_board tr tc"
    using assms position_index_on_board by blast+
  have "wf_board (put (board s) (nat tr) (nat tc) (cell (board s) fr fc))"
    using assms ob by (intro wf_board_put) (auto simp: cell_glyph)
  then show ?thesis
    using assms ob
    by (simp add: move_piece_def positions_def board_get_wf board_set_wf relocate_def)
qed

subsection \<open>The explosion\<close>

lemma explode_cells_wf:
  assumes "wf_board (board s)"
  shows "\<exists>s'. explode_cells s row col ds = Inr s' \<and> wf_board (board s') \<and>
    (\<forall>r c. on_board r c \<longrightarrow>
       cell (board s') r c = (if (r - row, c - col) \<in> set ds then CHR ''.'' else cell (board s) r c))"
  using assms
proof (induction ds arbitrary: s)
  case Nil
  then show ?case by simp
next
  case (Cons d ds)
  obtain dr dc where d: "d = (dr, dc)" by (cases d)
  let ?r = "row + dr" and ?c = "col + dc"
  show ?case
  proof (cases "on_board ?r ?c \<and> cell (board s) ?r ?c \<noteq> CHR ''.''")
    case True
    define s1 where "s1 = (if upper (cell (board s) ?r ?c) = CHR ''K''
                          then s\<lparr>current_game_state :=
                                   (if islower (cell (board s) ?r ?c) then BLACK_WON else WHITE_WON)\<rparr>
                          else s)"
    define s2 where "s2 = s1\<lparr>board := put (board s) (nat ?r) (nat ?c) (CHR ''.'')\<rparr>"
    have b1: "board s1 = board s" by (simp add: s1_def)
    have wf2: "wf_board (board s2)"
      using Cons.prems by (simp add: s2_def wf_board_put glyphs_def)
    have step: "explode_cells s row col (d # ds) = explode_cells s2 row col ds"
      using True Cons.prems b1
      by (simp add: d Let_def board_get_wf board_set_wf on_board_def s1_def [symmetric] s2_def)
    from Cons.IH [OF wf2] obtain s' where s': "explode_cells s2 row col ds = Inr s'"
      "wf_board (board s')"
      "\<forall>r c. on_board r c \<longrightarrow>
         cell (board s') r c = (if (r - row, c - col) \<in> set ds then CHR ''.'' else cell (board s2) r c)"
      by blast
    have "\<forall>r c. on_board r c \<longrightarrow>
       cell (board s') r c = (if (r - row, c - col) \<in> set (d # ds) then CHR ''.'' else cell (board s) r c)"
    proof (intro allI impI)
      fix r c assume rc: "on_board r c"
      have "cell (board s2) r c = (if r = ?r \<and> c = ?c then CHR ''.'' else cell (board s) r c)"
        using True Cons.prems rc by (simp add: s2_def cell_put)
      moreover have "(r - row, c - col) = d \<longleftrightarrow> r = ?r \<and> c = ?c"
        by (auto simp: d)
      ultimately show "cell (board s') r c =
          (if (r - row, c - col) \<in> set (d # ds) then CHR ''.'' else cell (board s) r c)"
        using s'(3) rc by auto
    qed
    with s' step show ?thesis by auto
  next
    case False
    have step: "explode_cells s row col (d # ds) = explode_cells s row col ds"
      using False Cons.prems
      by (auto simp: d Let_def board_get_wf on_board_def)
    from Cons.IH [OF Cons.prems] obtain s' where s': "explode_cells s row col ds = Inr s'"
      "wf_board (board s')"
      "\<forall>r c. on_board r c \<longrightarrow>
         cell (board s') r c = (if (r - row, c - col) \<in> set ds then CHR ''.'' else cell (board s) r c)"
      by blast
    have "\<forall>r c. on_board r c \<longrightarrow>
       cell (board s') r c = (if (r - row, c - col) \<in> set (d # ds) then CHR ''.'' else cell (board s) r c)"
    proof (intro allI impI)
      fix r c assume rc: "on_board r c"
      have "(r - row, c - col) = d \<longleftrightarrow> r = ?r \<and> c = ?c"
        by (auto simp: d)
      then show "cell (board s') r c =
          (if (r - row, c - col) \<in> set (d # ds) then CHR ''.'' else cell (board s) r c)"
        using s'(3) rc False by auto
    qed
    with s' step show ?thesis by auto
  qed
qed

lemma abs_le_one_iff: "\<bar>x\<bar> \<le> 1 \<longleftrightarrow> x = -1 \<or> x = 0 \<or> x = (1::int)"
  by arith

lemma in_offsets: "(dr, dc) \<in> set offsets \<longleftrightarrow> \<bar>dr\<bar> \<le> 1 \<and> \<bar>dc\<bar> \<le> 1"
  unfolding abs_le_one_iff by (simp add: offsets_def) blast

subsection \<open>The initial position\<close>

lemma initialize_board_eq:
  "initialize_board = [''rnbqkbnr'', ''pppppppp'', ''........'', ''........'',
     ''........'', ''........'', ''PPPPPPPP'', ''RNBQKBNR'']"
  by code_simp

subsection \<open>Path clearance\<close>

lemma clear_path_loop_walk:
  assumes "wf_board b" "\<bar>rs\<bar> \<le> 1" "\<bar>cs\<bar> \<le> 1" "rs \<noteq> 0 \<or> cs \<noteq> 0"
    "\<forall>k. 0 \<le> k \<and> k < int n \<longrightarrow> on_board (r + k * rs) (c + k * cs)"
  shows "clear_path_loop b r c (r + int n * rs) (c + int n * cs) rs cs =
    Some (Inr (\<forall>k. 0 \<le> k \<and> k < int n \<longrightarrow> cell b (r + k * rs) (c + k * cs) = CHR ''.''))"
  using assms(5)
proof (induction n arbitrary: r c)
  case 0
  show ?case by (subst clear_path_loop.simps) auto
next
  case (Suc n)
  have here: "on_board r c"
    using Suc.prems [rule_format, of 0] by simp
  have far: "r \<noteq> r + int (Suc n) * rs \<or> c \<noteq> c + int (Suc n) * cs"
    using assms(4) by auto
  have onward: "\<forall>k. 0 \<le> k \<and> k < int n \<longrightarrow> on_board (r + rs + k * rs) (c + cs + k * cs)"
  proof (intro allI impI)
    fix k :: int assume "0 \<le> k \<and> k < int n"
    then have "on_board (r + (k + 1) * rs) (c + (k + 1) * cs)"
      using Suc.prems [rule_format, of "k + 1"] by simp
    then show "on_board (r + rs + k * rs) (c + cs + k * cs)"
      by (simp add: algebra_simps)
  qed
  have target: "r + int (Suc n) * rs = r + rs + int n * rs" "c + int (Suc n) * cs = c + cs + int n * cs"
    by (simp_all add: algebra_simps)
  have shift: "(\<forall>k. 0 \<le> k \<and> k < int (Suc n) \<longrightarrow> cell b (r + k * rs) (c + k * cs) = CHR ''.'') \<longleftrightarrow>
      cell b r c = CHR ''.'' \<and>
      (\<forall>k. 0 \<le> k \<and> k < int n \<longrightarrow> cell b (r + rs + k * rs) (c + cs + k * cs) = CHR ''.'')"
    (is "?L \<longleftrightarrow> ?H \<and> ?R")
  proof
    assume L: ?L
    have ?H using L [rule_format, of 0] by simp
    moreover have ?R
    proof (intro allI impI)
      fix k :: int assume "0 \<le> k \<and> k < int n"
      then have "cell b (r + (k + 1) * rs) (c + (k + 1) * cs) = CHR ''.''"
        using L [rule_format, of "k + 1"] by simp
      then show "cell b (r + rs + k * rs) (c + cs + k * cs) = CHR ''.''"
        by (simp add: algebra_simps)
    qed
    ultimately show "?H \<and> ?R" ..
  next
    assume HR: "?H \<and> ?R"
    show ?L
    proof (intro allI impI)
      fix k :: int assume k: "0 \<le> k \<and> k < int (Suc n)"
      show "cell b (r + k * rs) (c + k * cs) = CHR ''.''"
      proof (cases "k = 0")
        case True
        with HR show ?thesis by simp
      next
        case False
        with k have "0 \<le> k - 1 \<and> k - 1 < int n" by simp
        with HR have "cell b (r + rs + (k - 1) * rs) (c + cs + (k - 1) * cs) = CHR ''.''"
          by blast
        then show ?thesis by (simp add: algebra_simps)
      qed
    qed
  qed
  show ?case
  proof (cases "cell b r c = CHR ''.''")
    case True
    have "clear_path_loop b r c (r + int (Suc n) * rs) (c + int (Suc n) * cs) rs cs =
        clear_path_loop b (r + rs) (c + cs) (r + int (Suc n) * rs) (c + int (Suc n) * cs) rs cs"
      using far True here assms(1)
      by (subst clear_path_loop.simps) (simp add: board_get_wf)
    also have "\<dots> = Some (Inr ?R)"
      unfolding target by (rule Suc.IH [OF onward])
    finally show ?thesis
      using True by (simp only: shift simp_thms)
  next
    case False
    have "clear_path_loop b r c (r + int (Suc n) * rs) (c + int (Suc n) * cs) rs cs = Some (Inr False)"
      using far False here assms(1)
      by (subst clear_path_loop.simps) (simp add: board_get_wf)
    then show ?thesis
      using False by (simp only: shift simp_thms)
  qed
qed

lemma row_step_sgn:
  "(if (a::int) = b then 0 else if b > a then 1 else -1) = sgn (b - a)"
  by (simp add: sgn_if)

lemma line_endpoint:
  assumes "aligned fr fc tr tc"
  shows "tr = fr + max \<bar>tr - fr\<bar> \<bar>tc - fc\<bar> * sgn (tr - fr) \<and>
         tc = fc + max \<bar>tr - fr\<bar> \<bar>tc - fc\<bar> * sgn (tc - fc)"
  using assms by (auto simp: aligned_def sgn_if max_def)

lemma line_on_board:
  assumes "aligned fr fc tr tc" "on_board fr fc" "on_board tr tc"
    "0 \<le> j" "j \<le> max \<bar>tr - fr\<bar> \<bar>tc - fc\<bar>"
  shows "on_board (fr + j * sgn (tr - fr)) (fc + j * sgn (tc - fc))"
  using assms by (auto simp: aligned_def on_board_def sgn_if max_def split: if_splits)

lemma path_empty_iff:
  "path_empty b fr fc tr tc \<longleftrightarrow>
     (\<forall>k. 1 \<le> k \<and> k < max \<bar>tr - fr\<bar> \<bar>tc - fc\<bar> \<longrightarrow>
        cell b (fr + k * sgn (tr - fr)) (fc + k * sgn (tc - fc)) = CHR ''.'')"
  by (auto simp: path_empty_def between_def)

lemma clear_path_aligned:
  assumes "wf_board (board s)" "position_index f = Inr (Some (fr, fc))"
    "position_index t = Inr (Some (tr, tc))" "aligned fr fc tr tc"
  shows "clear_path s f t = Some (Inr (path_empty (board s) fr fc tr tc))"
proof -
  define rs cs n where "rs = sgn (tr - fr)" and "cs = sgn (tc - fc)"
    and "n = max \<bar>tr - fr\<bar> \<bar>tc - fc\<bar>"
  have ob: "on_board fr fc" "on_board tr tc"
    using assms position_index_on_board by blast+
  have unfold: "clear_path s f t =
      clear_path_loop (board s) (fr + rs) (fc + cs) tr tc rs cs"
    using assms(2,3) by (simp add: clear_path_def positions_def row_step_sgn rs_def cs_def Let_def)
  show ?thesis
  proof (cases "n = 0")
    case True
    then have same: "tr = fr" "tc = fc" by (auto simp: n_def)
    then have "rs = 0" "cs = 0" by (simp_all add: rs_def cs_def)
    with same have "clear_path s f t = Some (Inr True)"
      unfolding unfold by (subst clear_path_loop.simps) simp
    moreover have "path_empty (board s) fr fc tr tc"
      using same by (auto simp: path_empty_iff)
    ultimately show ?thesis by simp
  next
    case False
    then have n: "1 \<le> n" by (auto simp: n_def)
    define m where "m = nat (n - 1)"
    have m: "int m = n - 1" using n by (simp add: m_def)
    have steps: "\<bar>rs\<bar> \<le> 1" "\<bar>cs\<bar> \<le> 1" "rs \<noteq> 0 \<or> cs \<noteq> 0"
      using n by (auto simp: rs_def cs_def n_def sgn_if)
    have ends: "tr = fr + n * rs" "tc = fc + n * cs"
      using line_endpoint [OF assms(4)] by (simp_all add: rs_def cs_def n_def)
    then have target: "tr = fr + rs + int m * rs" "tc = fc + cs + int m * cs"
      by (simp_all add: m algebra_simps)
    have inside: "\<forall>k. 0 \<le> k \<and> k < int m \<longrightarrow> on_board (fr + rs + k * rs) (fc + cs + k * cs)"
    proof (intro allI impI)
      fix k :: int assume k: "0 \<le> k \<and> k < int m"
      then have "on_board (fr + (k + 1) * sgn (tr - fr)) (fc + (k + 1) * sgn (tc - fc))"
        using m by (intro line_on_board [OF assms(4) ob]) (simp_all add: n_def)
      then show "on_board (fr + rs + k * rs) (fc + cs + k * cs)"
        by (simp add: rs_def cs_def algebra_simps)
    qed
    have "clear_path_loop (board s) (fr + rs) (fc + cs)
            (fr + rs + int m * rs) (fc + cs + int m * cs) rs cs =
          Some (Inr (\<forall>k. 0 \<le> k \<and> k < int m \<longrightarrow>
            cell (board s) (fr + rs + k * rs) (fc + cs + k * cs) = CHR ''.''))"
      by (rule clear_path_loop_walk [OF assms(1) steps inside])
    moreover have "(\<forall>k. 0 \<le> k \<and> k < int m \<longrightarrow>
            cell (board s) (fr + rs + k * rs) (fc + cs + k * cs) = CHR ''.'') \<longleftrightarrow>
          path_empty (board s) fr fc tr tc"
      (is "?A \<longleftrightarrow> _")
    proof
      assume A: ?A
      show "path_empty (board s) fr fc tr tc"
        unfolding path_empty_iff
      proof (intro allI impI)
        fix k :: int assume "1 \<le> k \<and> k < max \<bar>tr - fr\<bar> \<bar>tc - fc\<bar>"
        then have "0 \<le> k - 1 \<and> k - 1 < int m" by (simp add: m n_def)
        with A have "cell (board s) (fr + rs + (k - 1) * rs) (fc + cs + (k - 1) * cs) = CHR ''.''"
          by blast
        then show "cell (board s) (fr + k * sgn (tr - fr)) (fc + k * sgn (tc - fc)) = CHR ''.''"
          by (simp add: rs_def cs_def algebra_simps)
      qed
    next
      assume P: "path_empty (board s) fr fc tr tc"
      show ?A
      proof (intro allI impI)
        fix k :: int assume "0 \<le> k \<and> k < int m"
        then have "1 \<le> k + 1 \<and> k + 1 < max \<bar>tr - fr\<bar> \<bar>tc - fc\<bar>" by (simp add: m n_def)
        with P have "cell (board s) (fr + (k + 1) * sgn (tr - fr)) (fc + (k + 1) * sgn (tc - fc)) = CHR ''.''"
          unfolding path_empty_iff by blast
        then show "cell (board s) (fr + rs + k * rs) (fc + cs + k * cs) = CHR ''.''"
          by (simp add: rs_def cs_def algebra_simps)
      qed
    qed
    ultimately show ?thesis
      unfolding unfold using target by simp
  qed
qed

subsection \<open>Pieces and their rules\<close>

lemma glyph_disj:
  assumes "x \<in> set glyphs"
  shows "x = CHR ''.'' \<or> x = CHR ''P'' \<or> x = CHR ''R'' \<or> x = CHR ''N'' \<or> x = CHR ''B''
    \<or> x = CHR ''Q'' \<or> x = CHR ''K'' \<or> x = CHR ''p'' \<or> x = CHR ''r'' \<or> x = CHR ''n''
    \<or> x = CHR ''b'' \<or> x = CHR ''q'' \<or> x = CHR ''k''"
  using assms by (simp add: glyphs_def)

lemma glyph_colour:
  assumes "x \<in> set glyphs"
  shows "isupper x = (colour_of x = Some White)" "islower x = (colour_of x = Some Black)"
    "(x = CHR ''.'') = (colour_of x = None)"
  using glyph_disj [OF assms]
  by (elim disjE; simp add: isupper_def islower_def colour_of_def)+

lemma glyph_kind:
  assumes "x \<in> set glyphs"
  shows "(upper x = CHR ''P'') = (kind_of x = Some Pawn)"
    "(upper x = CHR ''R'') = (kind_of x = Some Rook)"
    "(upper x = CHR ''N'') = (kind_of x = Some Knight)"
    "(upper x = CHR ''B'') = (kind_of x = Some Bishop)"
    "(upper x = CHR ''Q'') = (kind_of x = Some Queen)"
    "(upper x = CHR ''K'') = (kind_of x = Some King)"
    "(kind_of x = None) = (colour_of x = None)"
  using glyph_disj [OF assms]
  by (elim disjE; simp add: upper_def islower_def kind_of_def colour_of_def char_of_eq_iff)+

lemma rook_move_wf:
  assumes "wf_board (board s)" "position_index f = Inr (Some (fr, fc))"
    "position_index t = Inr (Some (tr, tc))"
  shows "rook_move s f t = Some (Inr (rook_pattern (board s) fr fc tr tc))"
proof (cases "fr = tr \<or> fc = tc")
  case True
  then have "aligned fr fc tr tc" by (auto simp: aligned_def)
  from clear_path_aligned [OF assms this] True assms(2,3) show ?thesis
    by (simp add: rook_move_def positions_def rook_pattern_def)
next
  case False
  with assms(2,3) show ?thesis
    by (simp add: rook_move_def positions_def rook_pattern_def)
qed

lemma bishop_move_wf:
  assumes "wf_board (board s)" "position_index f = Inr (Some (fr, fc))"
    "position_index t = Inr (Some (tr, tc))"
  shows "bishop_move s f t =
    Some (Inr (\<bar>tr - fr\<bar> = \<bar>tc - fc\<bar> \<and> path_empty (board s) fr fc tr tc))"
proof (cases "\<bar>tr - fr\<bar> = \<bar>tc - fc\<bar>")
  case True
  then have "aligned fr fc tr tc" by (auto simp: aligned_def)
  from clear_path_aligned [OF assms this] True assms(2,3) show ?thesis
    by (simp add: bishop_move_def positions_def)
next
  case False
  with assms(2,3) show ?thesis
    by (simp add: bishop_move_def positions_def)
qed

lemma queen_move_wf:
  assumes "wf_board (board s)" "position_index f = Inr (Some (fr, fc))"
    "position_index t = Inr (Some (tr, tc))"
  shows "queen_move s f t =
    Some (Inr (((fr = tr \<or> fc = tc) \<and> path_empty (board s) fr fc tr tc) \<or>
               (\<bar>tr - fr\<bar> = \<bar>tc - fc\<bar> \<and> path_empty (board s) fr fc tr tc)))"
  using rook_move_wf [OF assms] bishop_move_wf [OF assms]
  by (cases "(fr = tr \<or> fc = tc) \<and> path_empty (board s) fr fc tr tc")
    (auto simp: queen_move_def rook_pattern_def)

lemma knight_move_wf:
  assumes "position_index f = Inr (Some (fr, fc))" "position_index t = Inr (Some (tr, tc))"
  shows "knight_move s f t = Inr (knight_pattern fr fc tr tc)"
  using assms by (auto simp: knight_move_def positions_def knight_pattern_def Let_def)

lemma king_move_wf:
  assumes "position_index f = Inr (Some (fr, fc))" "position_index t = Inr (Some (tr, tc))"
  shows "king_move s f t = Inr (king_pattern fr fc tr tc)"
  using assms by (auto simp: king_move_def positions_def king_pattern_def)

lemma cell_is_empty_wf:
  "wf_board (board s) \<Longrightarrow> on_board r c \<Longrightarrow>
     cell_is_empty s r c = Inr (cell (board s) r c = CHR ''.'')"
  by (simp add: cell_is_empty_def board_get_wf)

lemma pawn_move_wf:
  assumes "wf_board (board s)" "on_board fr fc" "on_board tr tc"
    "colour_of (cell (board s) fr fc) = Some colour"
  shows "pawn_move s fr fc tr tc = Inr (pawn_pattern (board s) colour fr fc tr tc)"
proof -
  let ?b = "board s"
  let ?T = "cell ?b tr tc"
  define d :: int where "d = (case colour of White \<Rightarrow> -1 | Black \<Rightarrow> 1)"
  define st :: int where "st = (case colour of White \<Rightarrow> 6 | Black \<Rightarrow> 1)"
  have up: "isupper (cell ?b fr fc) = (colour = White)"
    using assms glyph_colour(1) [OF cell_glyph [OF assms(1,2)]] by auto
  have e1: "cell_is_empty s tr tc = Inr (?T = CHR ''.'')"
    using assms by (simp add: cell_is_empty_wf)
  have e2: "cell_is_empty s (st + d) tc = Inr (cell ?b (st + d) tc = CHR ''.'')"
    using assms by (cases colour) (simp_all add: cell_is_empty_wf on_board_def d_def st_def)
  have opp: "(?T \<noteq> CHR ''.'' \<and> (if colour = White then islower else isupper) ?T) =
      (colour_of ?T = Some (opponent colour))"
    using glyph_colour [OF cell_glyph [OF assms(1,3)]]
    by (cases colour) (auto simp: opponent_def)
  have pat: "pawn_pattern ?b colour fr fc tr tc \<longleftrightarrow>
      (tc = fc \<and> tr = fr + d \<and> ?T = CHR ''.'') \<or>
      (tc = fc \<and> fr = st \<and> tr = fr + 2 * d \<and> cell ?b (fr + d) fc = CHR ''.'' \<and> ?T = CHR ''.'') \<or>
      (\<bar>tc - fc\<bar> = 1 \<and> tr = fr + d \<and> colour_of ?T = Some (opponent colour))"
    by (cases colour) (simp_all add: pawn_pattern_def d_def st_def)
  have pm: "pawn_move s fr fc tr tc =
      (if tc = fc then
         (case (if tr = fr + d then cell_is_empty s tr tc else Inr False) of
            Inl e \<Rightarrow> Inl e
          | Inr True \<Rightarrow> Inr True
          | Inr False \<Rightarrow>
              (if fr = st \<and> tr = fr + 2 * d then
                 (case cell_is_empty s (fr + d) tc of
                    Inl e \<Rightarrow> Inl e
                  | Inr False \<Rightarrow> Inr False
                  | Inr True \<Rightarrow> cell_is_empty s tr tc)
               else Inr False))
       else if \<bar>tc - fc\<bar> = 1 \<and> tr = fr + d then Inr (colour_of ?T = Some (opponent colour))
       else Inr False)"
    using assms(1,2,3) opp
    by (cases colour)
      (simp_all add: pawn_move_def Let_def board_get_wf up d_def st_def
         split del: if_split cong del: if_weak_cong sum.case_cong_weak bool.case_cong_weak)
  have d: "d \<noteq> 0" by (cases colour) (simp_all add: d_def)
  consider (one) "tc = fc" "tr = fr + d"
    | (two) "tc = fc" "tr \<noteq> fr + d" "fr = st" "tr = fr + 2 * d"
    | (none) "tc = fc" "tr \<noteq> fr + d" "\<not> (fr = st \<and> tr = fr + 2 * d)"
    | (side) "tc \<noteq> fc"
    by blast
  then show ?thesis
  proof cases
    case one
    with d e1 show ?thesis
      unfolding pm pat by (cases "?T = CHR ''.''") simp_all
  next
    case two
    with d e1 e2 show ?thesis
      unfolding pm pat
      by (cases "cell ?b (st + d) fc = CHR ''.''") simp_all
  next
    case none
    then show ?thesis
      unfolding pm pat by auto
  next
    case side
    then show ?thesis
      unfolding pm pat by auto
  qed
qed

lemma opponent_iff: "c \<noteq> p \<longleftrightarrow> c = opponent p"
  by (cases c; cases p) (simp_all add: opponent_def)

lemma valid_move_wf:
  assumes "wf_board (board s)" "position_index f = Inr (Some (fr, fc))"
    "position_index t = Inr (Some (tr, tc))"
  shows "valid_move s f t = Some (Inr (is_legal s f t))"
proof -
  let ?b = "board s"
  let ?piece = "cell ?b fr fc" and ?target = "cell ?b tr tc"
  have ob: "on_board fr fc" "on_board tr tc"
    using assms position_index_on_board by blast+
  note pc = glyph_colour [OF cell_glyph [OF assms(1) ob(1)]]
  note tc = glyph_colour [OF cell_glyph [OF assms(1) ob(2)]]
  note pk = glyph_kind [OF cell_glyph [OF assms(1) ob(1)]]
  have legal: "is_legal s f t \<longleftrightarrow>
      colour_of ?piece = Some (turn s) \<and> colour_of ?target \<noteq> Some (turn s) \<and>
      (case kind_of ?piece of None \<Rightarrow> False
       | Some k \<Rightarrow> pattern_ok ?b (turn s) k fr fc tr tc)"
    using assms(2,3) by (simp add: is_legal_def)
  have t0: "?piece = CHR ''.'' \<longleftrightarrow> colour_of ?piece = None"
    by (simp add: pc)
  have t1: "(turn s = White \<and> islower ?piece) \<or> (turn s = Black \<and> isupper ?piece) \<longleftrightarrow>
      colour_of ?piece = Some (opponent (turn s))"
    by (cases "turn s") (simp_all add: pc opponent_def)
  have t2: "(turn s = White \<and> isupper ?target) \<or> (turn s = Black \<and> islower ?target) \<longleftrightarrow>
      colour_of ?target = Some (turn s)"
    by (cases "turn s") (simp_all add: tc)
  have unfold: "valid_move s f t =
      (if colour_of ?piece = None then Some (Inr False)
       else if colour_of ?piece = Some (opponent (turn s)) then Some (Inr False)
       else if colour_of ?target = Some (turn s) then Some (Inr False)
       else if upper ?piece = CHR ''P'' then Some (pawn_move s fr fc tr tc)
       else if upper ?piece = CHR ''R'' then rook_move s f t
       else if upper ?piece = CHR ''N'' then Some (knight_move s f t)
       else if upper ?piece = CHR ''B'' then bishop_move s f t
       else if upper ?piece = CHR ''Q'' then queen_move s f t
       else if upper ?piece = CHR ''K'' then Some (king_move s f t)
       else Some (Inr False))"
    using assms ob
    by (simp only: valid_move_def positions_def board_get_wf Let_def t0 t1 t2
          sum.case option.case prod.case)
  show ?thesis
  proof (cases "colour_of ?piece = Some (turn s) \<and> colour_of ?target \<noteq> Some (turn s)")
    case False
    then have "\<not> is_legal s f t" by (simp add: legal)
    moreover have "valid_move s f t = Some (Inr False)"
      unfolding unfold using False opponent_iff [of _ "turn s"]
      by (cases "colour_of ?piece") auto
    ultimately show ?thesis by simp
  next
    case True
    then have own: "colour_of ?piece = Some (turn s)" and other: "colour_of ?target \<noteq> Some (turn s)"
      by simp_all
    from own other have distinct: "fr \<noteq> tr \<or> fc \<noteq> tc" by auto
    from own pk(7) obtain k where k: "kind_of ?piece = Some k" by (cases "kind_of ?piece") auto
    have pass: "valid_move s f t =
       (if upper ?piece = CHR ''P'' then Some (pawn_move s fr fc tr tc)
       else if upper ?piece = CHR ''R'' then rook_move s f t
       else if upper ?piece = CHR ''N'' then Some (knight_move s f t)
       else if upper ?piece = CHR ''B'' then bishop_move s f t
       else if upper ?piece = CHR ''Q'' then queen_move s f t
       else if upper ?piece = CHR ''K'' then Some (king_move s f t)
       else Some (Inr False))"
      unfolding unfold using own other
      by (cases "turn s") (simp_all add: opponent_def)
    have goal: "is_legal s f t = pattern_ok ?b (turn s) k fr fc tr tc"
      using True k by (simp add: legal)
    show ?thesis
    proof (cases k)
      case Pawn
      then show ?thesis
        unfolding pass goal using k pk pawn_move_wf [OF assms(1) ob own] by simp
    next
      case Rook
      then show ?thesis
        unfolding pass goal using k pk rook_move_wf [OF assms] by simp
    next
      case Knight
      then show ?thesis
        unfolding pass goal using k pk knight_move_wf [OF assms(2,3)] by simp
    next
      case Bishop
      have "\<bar>tr - fr\<bar> = \<bar>tc - fc\<bar> \<Longrightarrow> tr \<noteq> fr"
        using distinct by auto
      then have "bishop_move s f t = Some (Inr (bishop_pattern ?b fr fc tr tc))"
        using bishop_move_wf [OF assms] by (auto simp: bishop_pattern_def)
      with Bishop show ?thesis
        unfolding pass goal using k pk by simp
    next
      case Queen
      have "\<bar>tr - fr\<bar> = \<bar>tc - fc\<bar> \<Longrightarrow> tr \<noteq> fr"
        using distinct by auto
      then have "queen_move s f t =
          Some (Inr (rook_pattern ?b fr fc tr tc \<or> bishop_pattern ?b fr fc tr tc))"
        using queen_move_wf [OF assms] by (auto simp: bishop_pattern_def rook_pattern_def)
      with Queen show ?thesis
        unfolding pass goal using k pk by simp
    next
      case King
      then show ?thesis
        unfolding pass goal using k pk king_move_wf [OF assms(2,3)] by simp
    qed
  qed
qed

lemma wf_board_init: "wf_board (board init)"
  unfolding init_def initialize_board_eq by (simp add: wf_board_def glyphs_def)


subsection \<open>Counting pieces\<close>

lemma count_list_update:
  "i < length xs \<Longrightarrow>
     count_list (xs[i := v]) x + (if xs ! i = x then 1 else 0) =
     count_list xs x + (if v = x then 1 else 0)"
proof (induction xs arbitrary: i)
  case Nil
  then show ?case by simp
next
  case (Cons a xs)
  show ?case
  proof (cases i)
    case 0
    then show ?thesis by simp
  next
    case (Suc j)
    with Cons.prems have "j < length xs" by simp
    from Cons.IH [OF this] Suc show ?thesis by (auto split: if_splits)
  qed
qed

lemma count_concat_update:
  "r < length b \<Longrightarrow>
     count_list (concat (b[r := row])) x + count_list (b ! r) x =
     count_list (concat b) x + count_list row x"
proof (induction b arbitrary: r)
  case Nil
  then show ?case by simp
next
  case (Cons a b)
  show ?case
  proof (cases r)
    case 0
    then show ?thesis by simp
  next
    case (Suc j)
    with Cons.prems have "j < length b" by simp
    from Cons.IH [OF this] Suc show ?thesis by simp
  qed
qed

lemma count_piece_put:
  assumes "wf_board b" "on_board r c"
  shows "count_piece (put b (nat r) (nat c) v) x + (if cell b r c = x then 1 else 0) =
         count_piece b x + (if v = x then 1 else 0)"
proof -
  from assms have r: "nat r < length b" and c: "nat c < length (b ! nat r)"
    using wf_board_row [of b "nat r"] by (auto simp: on_board_def wf_board_def)
  from count_concat_update [OF r, of "(b ! nat r)[nat c := v]" x]
    count_list_update [OF c, of v x]
  show ?thesis
    by (simp add: count_piece_def put_def cell_def)
qed

lemma count_piece_put_le:
  assumes "wf_board b" "on_board r c" "v \<noteq> x"
  shows "count_piece (put b (nat r) (nat c) v) x \<le> count_piece b x"
  using count_piece_put [OF assms(1,2), of v x] assms(3) by (simp split: if_splits)

lemma count_piece_relocate:
  assumes "wf_board b" "on_board fr fc" "on_board tr tc" "x \<noteq> CHR ''.''"
  shows "count_piece (relocate b fr fc tr tc) x \<le> count_piece b x"
proof -
  let ?p = "cell b fr fc"
  let ?b1 = "put b (nat tr) (nat tc) ?p"
  have wf1: "wf_board ?b1"
    using assms by (simp add: wf_board_put cell_glyph)
  have at_from: "cell ?b1 fr fc = ?p"
    using assms by (simp add: cell_put)
  from count_piece_put [OF assms(1,3), of ?p x]
  have 1: "count_piece ?b1 x \<le> count_piece b x + (if ?p = x then 1 else 0)"
    by (simp split: if_splits)
  from count_piece_put [OF wf1 assms(2), of "CHR ''.''" x] at_from assms(4)
  have 2: "count_piece (relocate b fr fc tr tc) x + (if ?p = x then 1 else 0) = count_piece ?b1 x"
    by (simp add: relocate_def)
  from 1 2 show ?thesis by (simp split: if_splits)
qed

lemma two_cells_count:
  assumes "wf_board b" "on_board r c" "on_board r' c'" "cell b r c = x" "cell b r' c' = x"
    "r \<noteq> r' \<or> c \<noteq> c'"
  shows "2 \<le> count_piece b x"
proof -
  let ?b1 = "put b (nat r) (nat c) (CHR ''.'')"
  show ?thesis
  proof (cases "x = CHR ''.''")
    case False
    have wf1: "wf_board ?b1"
      using assms(1) by (simp add: wf_board_put glyphs_def)
    have "cell ?b1 r' c' = x"
      using assms by (auto simp: cell_put)
    with count_piece_put [OF wf1 assms(3), of "CHR ''.''" x] False
    have "1 \<le> count_piece ?b1 x" by simp
    moreover from count_piece_put [OF assms(1,2), of "CHR ''.''" x] assms(4) False
    have "count_piece ?b1 x + 1 = count_piece b x" by simp
    ultimately show ?thesis by simp
  next
    case True
    let ?b2 = "put b (nat r) (nat c) (CHR ''K'')"
    have wf2: "wf_board ?b2"
      using assms(1) by (simp add: wf_board_put glyphs_def)
    have "cell ?b2 r' c' = x"
      using assms by (auto simp: cell_put)
    with count_piece_put [OF wf2 assms(3), of "CHR ''K''" x] True
    have "1 \<le> count_piece ?b2 x" by simp
    moreover from count_piece_put [OF assms(1,2), of "CHR ''K''" x] assms(4) True
    have "count_piece ?b2 x + 1 = count_piece b x" by simp
    ultimately show ?thesis by simp
  qed
qed

lemma king_unique:
  assumes "wf_board b" "count_piece b x \<le> 1" "on_board r c" "on_board r' c'"
    "cell b r c = x" "cell b r' c' = x"
  shows "r = r' \<and> c = c'"
  using two_cells_count [OF assms(1,3,4,5,6)] assms(2) by auto

subsection \<open>One explosion step\<close>

lemma explode_cells_Cons:
  assumes "wf_board (board s)"
  shows "explode_cells s row col ((dr, dc) # ds) =
    explode_cells (explode_one s (row + dr) (col + dc)) row col ds"
proof (cases "on_board (row + dr) (col + dc)")
  case True
  then have rng: "0 \<le> row + dr \<and> row + dr < 8 \<and> 0 \<le> col + dc \<and> col + dc < 8"
    by (simp add: on_board_def)
  show ?thesis
  proof (cases "cell (board s) (row + dr) (col + dc) = CHR ''.''")
    case empty: True
    with True assms rng show ?thesis
      by (simp add: explode_one_def Let_def board_get_wf)
  next
    case piece: False
    with True assms rng show ?thesis
      by (simp add: explode_one_def Let_def board_get_wf board_set_wf)
  qed
next
  case False
  then show ?thesis
    by (auto simp: explode_one_def Let_def on_board_def)
qed

lemma explode_one_board:
  "board (explode_one s r c) =
     (if on_board r c \<and> cell (board s) r c \<noteq> CHR ''.''
      then put (board s) (nat r) (nat c) (CHR ''.'') else board s)"
  by (simp add: explode_one_def)

lemma wf_board_explode_one:
  "wf_board (board s) \<Longrightarrow> wf_board (board (explode_one s r c))"
  by (simp add: explode_one_board wf_board_put glyphs_def)

lemma count_piece_explode_one:
  "wf_board (board s) \<Longrightarrow> x \<noteq> CHR ''.'' \<Longrightarrow>
     count_piece (board (explode_one s r c)) x \<le> count_piece (board s) x"
  by (auto simp: explode_one_board intro: count_piece_put_le)

lemma cell_explode_one:
  assumes "wf_board (board s)" "on_board r' c'"
  shows "cell (board (explode_one s r c)) r' c' =
    (if r' = r \<and> c' = c then CHR ''.'' else cell (board s) r' c')"
  using assms by (auto simp: explode_one_board cell_put)

lemma state_explode_one:
  assumes "wf_board (board s)" "current_game_state (explode_one s r c) \<noteq> current_game_state s"
  shows "on_board r c \<and> (cell (board s) r c = CHR ''K'' \<or> cell (board s) r c = CHR ''k'')"
proof -
  from assms(2) have ob: "on_board r c" and k: "upper (cell (board s) r c) = CHR ''K''"
    by (auto simp: explode_one_def split: if_splits)
  from glyph_disj [OF cell_glyph [OF assms(1) ob]] k
  have "cell (board s) r c = CHR ''K'' \<or> cell (board s) r c = CHR ''k''"
    by (elim disjE) (simp_all add: upper_def islower_def char_of_eq_iff)
  with ob show ?thesis by simp
qed

lemma explode_cells_count:
  assumes "wf_board (board s)" "explode_cells s row col ds = Inr s'" "x \<noteq> CHR ''.''"
  shows "count_piece (board s') x \<le> count_piece (board s) x"
  using assms(1,2)
proof (induction ds arbitrary: s)
  case Nil
  then show ?case by simp
next
  case (Cons d ds)
  obtain dr dc where d: "d = (dr, dc)" by (cases d)
  let ?s1 = "explode_one s (row + dr) (col + dc)"
  from Cons.prems have "explode_cells ?s1 row col ds = Inr s'"
    by (simp add: d explode_cells_Cons del: explode_cells.simps)
  from Cons.IH [OF wf_board_explode_one [OF Cons.prems(1)] this]
    count_piece_explode_one [OF Cons.prems(1) assms(3), of "row + dr" "col + dc"]
  show ?case by simp
qed

lemma explode_cells_state:
  assumes "wf_board (board s)" "explode_cells s row col ds = Inr s'"
    "current_game_state s' \<noteq> current_game_state s"
  shows "\<exists>r c. on_board r c \<and> (r - row, c - col) \<in> set ds \<and>
    (cell (board s) r c = CHR ''K'' \<or> cell (board s) r c = CHR ''k'')"
  using assms
proof (induction ds arbitrary: s)
  case Nil
  then show ?case by simp
next
  case (Cons d ds)
  obtain dr dc where d: "d = (dr, dc)" by (cases d)
  let ?r = "row + dr" and ?c = "col + dc"
  let ?s1 = "explode_one s ?r ?c"
  have wf1: "wf_board (board ?s1)"
    by (rule wf_board_explode_one [OF Cons.prems(1)])
  from Cons.prems have run: "explode_cells ?s1 row col ds = Inr s'"
    by (simp add: d explode_cells_Cons del: explode_cells.simps)
  show ?case
  proof (cases "current_game_state s' = current_game_state ?s1")
    case True
    with Cons.prems(3) have "current_game_state ?s1 \<noteq> current_game_state s" by simp
    from state_explode_one [OF Cons.prems(1) this]
    have "on_board ?r ?c \<and> (?r - row, ?c - col) \<in> set (d # ds) \<and>
      (cell (board s) ?r ?c = CHR ''K'' \<or> cell (board s) ?r ?c = CHR ''k'')"
      by (simp add: d)
    then show ?thesis by blast
  next
    case False
    from Cons.IH [OF wf1 run False] obtain r c where rc: "on_board r c"
      "(r - row, c - col) \<in> set ds"
      "cell (board ?s1) r c = CHR ''K'' \<or> cell (board ?s1) r c = CHR ''k''"
      by blast
    from rc(1,3) have "cell (board s) r c = CHR ''K'' \<or> cell (board s) r c = CHR ''k''"
      using cell_explode_one [OF Cons.prems(1) rc(1), of ?r ?c]
      by (auto split: if_splits)
    with rc(1,2) show ?thesis by auto
  qed
qed

lemma promote_wf:
  assumes "wf_board (board s)" "on_board tr tc" "p \<in> set glyphs"
  shows "promote s p tr tc =
    Inr (if promoting p tr
         then s\<lparr>board := put (board s) (nat tr) (nat tc) (if p = CHR ''P'' then CHR ''Q'' else CHR ''q'')\<rparr>
         else s)"
proof -
  have up: "upper p = CHR ''P'' \<longleftrightarrow> p = CHR ''P'' \<or> p = CHR ''p''"
    "isupper p \<and> upper p = CHR ''P'' \<longleftrightarrow> p = CHR ''P''"
    "islower p \<and> upper p = CHR ''P'' \<longleftrightarrow> p = CHR ''p''"
    using glyph_disj [OF assms(3)]
    by (elim disjE; simp add: upper_def islower_def isupper_def char_of_eq_iff)+
  show ?thesis
  proof (cases "upper p = CHR ''P''")
    case False
    with up(1) show ?thesis by (auto simp: promote_def promoting_def)
  next
    case True
    with up(1) have "p = CHR ''P'' \<or> p = CHR ''p''" by simp
    then show ?thesis
      using assms(1,2)
      by (auto simp: promote_def promoting_def board_set_wf isupper_def islower_def upper_def
            char_of_eq_iff)
  qed
qed

subsection \<open>A successful move, step by step\<close>

lemma board_finish [simp]: "board (switch_turn (check_win s)) = board s"
  by (simp add: switch_turn_def check_win_def)

lemma state_switch_turn [simp]: "current_game_state (switch_turn s) = current_game_state s"
  by (simp add: switch_turn_def)

lemma count_piece_zero:
  "count_piece b x = 0 \<longleftrightarrow> \<not> (\<exists>row \<in> set b. x \<in> set row)"
  by (simp add: count_piece_def count_list_0_iff)

lemma absent_iff:
  "wf_board b \<Longrightarrow> count_piece b x = 0 \<longleftrightarrow> \<not> (\<exists>r c. on_board r c \<and> cell b r c = x)"
  by (simp only: count_piece_zero has_piece_cell)

lemma check_win_rescan:
  "current_game_state (check_win s) =
    (if rescan (board s) = UNFINISHED then current_game_state s else rescan (board s))"
  by (simp add: check_win_def rescan_def count_piece_zero)

lemma explode_capture_wf:
  assumes "wf_board (board s)" "position_index t = Inr (Some (tr, tc))"
  shows "explode_capture s t = explode_cells s tr tc offsets"
  using assms(2) by (simp add: explode_capture_def)

lemma make_move_success_wf:
  assumes "wf_board (board s)" "make_move s f t = Some (Inr (True, s'))"
  obtains fr fc tr tc s2 where
    "position_index f = Inr (Some (fr, fc))" "position_index t = Inr (Some (tr, tc))"
    "on_board fr fc" "on_board tr tc"
    "current_game_state s = UNFINISHED" "is_legal s f t"
    "s' = switch_turn (check_win s2)" "wf_board (board s2)"
    "cell (board s) tr tc \<noteq> CHR ''.'' \<longrightarrow>
       explode_cells (s\<lparr>board := relocate (board s) fr fc tr tc\<rparr>) tr tc offsets = Inr s2"
    "cell (board s) tr tc = CHR ''.'' \<longrightarrow>
       s2 = (if promoting (cell (board s) fr fc) tr
             then s\<lparr>board := put (relocate (board s) fr fc tr tc) (nat tr) (nat tc)
                      (if cell (board s) fr fc = CHR ''P'' then CHR ''Q'' else CHR ''q'')\<rparr>
             else s\<lparr>board := relocate (board s) fr fc tr tc\<rparr>)"
proof -
  from assms(2) obtain s1 s2 fr fc tr tc target_piece moving_piece where
    st: "current_game_state s = UNFINISHED" and
    vm: "valid_move s f t = Some (Inr True)" and
    pf: "position_index f = Inr (Some (fr, fc))" and
    pt: "position_index t = Inr (Some (tr, tc))" and
    tp: "board_get (board s) tr tc = Inr target_piece" and
    mp: "board_get (board s) fr fc = Inr moving_piece" and
    s1: "move_piece s f t = Inr s1" and
    s2: "(if target_piece \<noteq> CHR ''.'' then explode_capture s1 t
          else promote s1 moving_piece tr tc) = Inr s2" and
    s': "s' = switch_turn (check_win s2)"
    by (rule make_move_success_steps)
  let ?b1 = "relocate (board s) fr fc tr tc"
  have ob: "on_board fr fc" "on_board tr tc"
    using pf pt position_index_on_board by blast+
  have legal: "is_legal s f t"
    using valid_move_wf [OF assms(1) pf pt] vm by simp
  have tp': "target_piece = cell (board s) tr tc" and mp': "moving_piece = cell (board s) fr fc"
    using tp mp assms(1) ob by (simp_all add: board_get_wf)
  have s1': "s1 = s\<lparr>board := ?b1\<rparr>"
    using s1 move_piece_wf [OF assms(1) pf pt] by simp
  have wf1: "wf_board (board s1)"
    using assms(1) ob by (simp add: s1' wf_board_relocate)
  have glyph: "moving_piece \<in> set glyphs"
    using assms(1) ob by (simp add: mp' cell_glyph)
  have capture: "cell (board s) tr tc \<noteq> CHR ''.'' \<Longrightarrow>
      explode_cells (s\<lparr>board := ?b1\<rparr>) tr tc offsets = Inr s2"
    using s2 explode_capture_wf [OF wf1 pt] by (simp add: tp' s1')
  have quiet: "cell (board s) tr tc = CHR ''.'' \<Longrightarrow>
      s2 = (if promoting (cell (board s) fr fc) tr
            then s\<lparr>board := put ?b1 (nat tr) (nat tc)
                     (if cell (board s) fr fc = CHR ''P'' then CHR ''Q'' else CHR ''q'')\<rparr>
            else s\<lparr>board := ?b1\<rparr>)"
    using s2 promote_wf [OF wf1 ob(2) glyph] by (simp add: tp' mp' s1')
  have wf2: "wf_board (board s2)"
  proof (cases "cell (board s) tr tc = CHR ''.''")
    case True
    from quiet [OF True] wf1 show ?thesis
      by (simp add: s1' wf_board_put glyphs_def)
  next
    case False
    from explode_cells_wf [of "s\<lparr>board := ?b1\<rparr>" tr tc offsets] wf1 capture [OF False]
    show ?thesis by (auto simp: s1')
  qed
  from capture quiet have
    "cell (board s) tr tc \<noteq> CHR ''.'' \<longrightarrow>
       explode_cells (s\<lparr>board := ?b1\<rparr>) tr tc offsets = Inr s2"
    "cell (board s) tr tc = CHR ''.'' \<longrightarrow>
       s2 = (if promoting (cell (board s) fr fc) tr
             then s\<lparr>board := put ?b1 (nat tr) (nat tc)
                      (if cell (board s) fr fc = CHR ''P'' then CHR ''Q'' else CHR ''q'')\<rparr>
             else s\<lparr>board := ?b1\<rparr>)"
    by blast+
  with pf pt ob st legal s' wf2 show thesis by (rule that)
qed

subsection \<open>The board after a successful move\<close>

lemma capture_board:
  assumes "wf_board (board s)" "make_move s f t = Some (Inr (True, s'))"
    "position_index f = Inr (Some (fr, fc))" "position_index t = Inr (Some (tr, tc))"
    "cell (board s) tr tc \<noteq> CHR ''.''"
  shows "wf_board (board s')"
    and "on_board r c \<Longrightarrow> cell (board s') r c =
      (if (r = fr \<and> c = fc) \<or> in_blast tr tc r c then CHR ''.'' else cell (board s) r c)"
proof -
  from assms(1,2) obtain fr' fc' tr' tc' s2 where
    p: "position_index f = Inr (Some (fr', fc'))" "position_index t = Inr (Some (tr', tc'))" and
    ob': "on_board fr' fc'" "on_board tr' tc'" and
    "current_game_state s = UNFINISHED" "is_legal s f t" and
    s': "s' = switch_turn (check_win s2)" and wf2: "wf_board (board s2)" and
    ex': "cell (board s) tr' tc' \<noteq> CHR ''.'' \<longrightarrow>
       explode_cells (s\<lparr>board := relocate (board s) fr' fc' tr' tc'\<rparr>) tr' tc' offsets = Inr s2" and
    "cell (board s) tr' tc' = CHR ''.'' \<longrightarrow>
       s2 = (if promoting (cell (board s) fr' fc') tr'
             then s\<lparr>board := put (relocate (board s) fr' fc' tr' tc') (nat tr') (nat tc')
                      (if cell (board s) fr' fc' = CHR ''P'' then CHR ''Q'' else CHR ''q'')\<rparr>
             else s\<lparr>board := relocate (board s) fr' fc' tr' tc'\<rparr>)"
    by (rule make_move_success_wf)
  from p assms(3,4) have eq: "fr' = fr" "fc' = fc" "tr' = tr" "tc' = tc" by simp_all
  let ?s1 = "s\<lparr>board := relocate (board s) fr fc tr tc\<rparr>"
  have ob: "on_board fr fc" "on_board tr tc" using ob' eq by simp_all
  have ex: "explode_cells ?s1 tr tc offsets = Inr s2"
    using ex' assms(5) eq by simp
  have wf1: "wf_board (board ?s1)"
    using assms(1) ob by (simp add: wf_board_relocate)
  show "wf_board (board s')" using wf2 by (simp add: s')
  assume rc: "on_board r c"
  from explode_cells_wf [OF wf1, of tr tc offsets] ex rc
  have "cell (board s2) r c =
      (if (r - tr, c - tc) \<in> set offsets then CHR ''.'' else cell (board ?s1) r c)"
    by auto
  then show "cell (board s') r c =
      (if (r = fr \<and> c = fc) \<or> in_blast tr tc r c then CHR ''.'' else cell (board s) r c)"
    using assms(1) ob rc
    by (auto simp: s' in_offsets in_blast_def cell_relocate)
qed

lemma quiet_board:
  assumes "wf_board (board s)" "make_move s f t = Some (Inr (True, s'))"
    "position_index f = Inr (Some (fr, fc))" "position_index t = Inr (Some (tr, tc))"
    "cell (board s) tr tc = CHR ''.''"
  shows "wf_board (board s')"
    and "on_board r c \<Longrightarrow> cell (board s') r c =
      (if r = tr \<and> c = tc
       then (if promoting (cell (board s) fr fc) tr
             then (if cell (board s) fr fc = CHR ''P'' then CHR ''Q'' else CHR ''q'')
             else cell (board s) fr fc)
       else if r = fr \<and> c = fc then CHR ''.'' else cell (board s) r c)"
proof -
  from assms(1,2) obtain fr' fc' tr' tc' s2 where
    p: "position_index f = Inr (Some (fr', fc'))" "position_index t = Inr (Some (tr', tc'))" and
    ob': "on_board fr' fc'" "on_board tr' tc'" and
    "current_game_state s = UNFINISHED" "is_legal s f t" and
    s': "s' = switch_turn (check_win s2)" and wf2: "wf_board (board s2)" and
    "cell (board s) tr' tc' \<noteq> CHR ''.'' \<longrightarrow>
       explode_cells (s\<lparr>board := relocate (board s) fr' fc' tr' tc'\<rparr>) tr' tc' offsets = Inr s2" and
    q': "cell (board s) tr' tc' = CHR ''.'' \<longrightarrow>
       s2 = (if promoting (cell (board s) fr' fc') tr'
             then s\<lparr>board := put (relocate (board s) fr' fc' tr' tc') (nat tr') (nat tc')
                      (if cell (board s) fr' fc' = CHR ''P'' then CHR ''Q'' else CHR ''q'')\<rparr>
             else s\<lparr>board := relocate (board s) fr' fc' tr' tc'\<rparr>)"
    by (rule make_move_success_wf)
  from p assms(3,4) have eq: "fr' = fr" "fc' = fc" "tr' = tr" "tc' = tc" by simp_all
  let ?b1 = "relocate (board s) fr fc tr tc"
  have ob: "on_board fr fc" "on_board tr tc" using ob' eq by simp_all
  have s2: "s2 = (if promoting (cell (board s) fr fc) tr
             then s\<lparr>board := put ?b1 (nat tr) (nat tc)
                      (if cell (board s) fr fc = CHR ''P'' then CHR ''Q'' else CHR ''q'')\<rparr>
             else s\<lparr>board := ?b1\<rparr>)"
    using q' assms(5) eq by simp
  have wf1: "wf_board ?b1"
    using assms(1) ob by (simp add: wf_board_relocate)
  show "wf_board (board s')" using wf2 by (simp add: s')
  assume rc: "on_board r c"
  let ?p = "cell (board s) fr fc"
  let ?q = "if ?p = CHR ''P'' then CHR ''Q'' else CHR ''q''"
  have b': "board s' = (if promoting ?p tr then put ?b1 (nat tr) (nat tc) ?q else ?b1)"
    by (simp add: s' s2)
  have c1: "cell ?b1 r c =
      (if r = fr \<and> c = fc then CHR ''.'' else if r = tr \<and> c = tc then ?p else cell (board s) r c)"
    by (rule cell_relocate [OF assms(1) ob rc])
  have c2: "cell (put ?b1 (nat tr) (nat tc) ?q) r c = (if r = tr \<and> c = tc then ?q else cell ?b1 r c)"
    by (rule cell_put [OF wf1 ob(2) rc])
  have same: "fr = tr \<and> fc = tc \<Longrightarrow> ?p = CHR ''.'' \<and> \<not> promoting ?p tr"
    using assms(5) by (simp add: promoting_def)
  show "cell (board s') r c =
      (if r = tr \<and> c = tc
       then (if promoting ?p tr then ?q else ?p)
       else if r = fr \<and> c = fc then CHR ''.'' else cell (board s) r c)"
  proof (cases "promoting ?p tr")
    case True
    then have "cell (board s') r c = (if r = tr \<and> c = tc then ?q else cell ?b1 r c)"
      by (simp only: b' c2 if_True)
    with True same show ?thesis
      by (simp only: c1) auto
  next
    case False
    then have "cell (board s') r c = cell ?b1 r c"
      by (simp only: b' if_False)
    with False same show ?thesis
      by (simp only: c1) auto
  qed
qed

subsection \<open>Invariants of play\<close>

lemma make_move_preserves:
  assumes "wf_board (board s)" "make_move s f t = Some (Inr (ok, s'))"
    "x = CHR ''K'' \<or> x = CHR ''k''"
  shows "wf_board (board s') \<and> count_piece (board s') x \<le> count_piece (board s) x"
proof (cases ok)
  case False
  with assms(2) have "s' = s" by (simp add: make_move_failure)
  with assms(1) show ?thesis by simp
next
  case True
  with assms(1,2) obtain fr fc tr tc s2 where
    "position_index f = Inr (Some (fr, fc))" "position_index t = Inr (Some (tr, tc))" and
    ob: "on_board fr fc" "on_board tr tc" and
    "current_game_state s = UNFINISHED" "is_legal s f t" and
    s': "s' = switch_turn (check_win s2)" and wf2: "wf_board (board s2)" and
    ex: "cell (board s) tr tc \<noteq> CHR ''.'' \<longrightarrow>
       explode_cells (s\<lparr>board := relocate (board s) fr fc tr tc\<rparr>) tr tc offsets = Inr s2" and
    qu: "cell (board s) tr tc = CHR ''.'' \<longrightarrow>
       s2 = (if promoting (cell (board s) fr fc) tr
             then s\<lparr>board := put (relocate (board s) fr fc tr tc) (nat tr) (nat tc)
                      (if cell (board s) fr fc = CHR ''P'' then CHR ''Q'' else CHR ''q'')\<rparr>
             else s\<lparr>board := relocate (board s) fr fc tr tc\<rparr>)"
    by (simp only:) (rule make_move_success_wf)
  let ?b1 = "relocate (board s) fr fc tr tc"
  have x: "x \<noteq> CHR ''.''" "CHR ''Q'' \<noteq> x" "CHR ''q'' \<noteq> x"
    using assms(3) by auto
  have wf1: "wf_board ?b1"
    using assms(1) ob by (simp add: wf_board_relocate)
  have le1: "count_piece ?b1 x \<le> count_piece (board s) x"
    by (rule count_piece_relocate [OF assms(1) ob x(1)])
  have "count_piece (board s2) x \<le> count_piece ?b1 x"
  proof (cases "cell (board s) tr tc = CHR ''.''")
    case True
    with qu have "board s2 = ?b1 \<or> board s2 = put ?b1 (nat tr) (nat tc) (CHR ''Q'')
        \<or> board s2 = put ?b1 (nat tr) (nat tc) (CHR ''q'')"
      by (auto split: if_splits)
    with count_piece_put_le [OF wf1 ob(2) x(2)] count_piece_put_le [OF wf1 ob(2) x(3)]
    show ?thesis by auto
  next
    case False
    with ex have "explode_cells (s\<lparr>board := ?b1\<rparr>) tr tc offsets = Inr s2" by simp
    from explode_cells_count [OF _ this x(1)] wf1 show ?thesis by simp
  qed
  with le1 wf2 show ?thesis by (simp add: s')
qed

lemma at_most_one_king_init: "at_most_one_king (board init)"
  unfolding init_def initialize_board_eq
  by (simp add: at_most_one_king_def count_piece_def)

lemma reachable_invariant:
  "reachable s \<Longrightarrow> wf_board (board s) \<and> at_most_one_king (board s)"
proof (induction rule: reachable.induct)
  case start
  show ?case using wf_board_init at_most_one_king_init by simp
next
  case (move s f t ok s')
  then have wf: "wf_board (board s)" and k: "at_most_one_king (board s)" by simp_all
  from make_move_preserves [OF wf move.hyps(2), of "CHR ''K''"]
    make_move_preserves [OF wf move.hyps(2), of "CHR ''k''"] k
  show ?case by (simp add: at_most_one_king_def)
qed

subsection \<open>The game state after a move\<close>

lemma state_after_move:
  assumes "wf_board (board s)" "at_most_one_king (board s)"
    "make_move s f t = Some (Inr (True, s'))"
  shows "current_game_state s' = rescan (board s')"
proof -
  from assms(1,3) obtain fr fc tr tc s2 where
    "position_index f = Inr (Some (fr, fc))" "position_index t = Inr (Some (tr, tc))" and
    ob: "on_board fr fc" "on_board tr tc" and
    st: "current_game_state s = UNFINISHED" and "is_legal s f t" and
    s': "s' = switch_turn (check_win s2)" and wf2: "wf_board (board s2)" and
    ex: "cell (board s) tr tc \<noteq> CHR ''.'' \<longrightarrow>
       explode_cells (s\<lparr>board := relocate (board s) fr fc tr tc\<rparr>) tr tc offsets = Inr s2" and
    qu: "cell (board s) tr tc = CHR ''.'' \<longrightarrow>
       s2 = (if promoting (cell (board s) fr fc) tr
             then s\<lparr>board := put (relocate (board s) fr fc tr tc) (nat tr) (nat tc)
                      (if cell (board s) fr fc = CHR ''P'' then CHR ''Q'' else CHR ''q'')\<rparr>
             else s\<lparr>board := relocate (board s) fr fc tr tc\<rparr>)"
    by (rule make_move_success_wf)
  let ?b1 = "relocate (board s) fr fc tr tc"
  let ?s1 = "s\<lparr>board := ?b1\<rparr>"
  have wf1: "wf_board (board ?s1)"
    using assms(1) ob by (simp add: wf_board_relocate)
  have key: "rescan (board s2) = UNFINISHED \<Longrightarrow> current_game_state s2 = UNFINISHED"
  proof (rule ccontr)
    assume present: "rescan (board s2) = UNFINISHED"
    assume changed: "current_game_state s2 \<noteq> UNFINISHED"
    have capture: "cell (board s) tr tc \<noteq> CHR ''.''"
      using changed qu st by (auto split: if_splits)
    with ex have run: "explode_cells ?s1 tr tc offsets = Inr s2" by simp
    from changed st have "current_game_state s2 \<noteq> current_game_state ?s1" by simp
    from explode_cells_state [OF wf1 run this] obtain r c where
      rc: "on_board r c" "(r - tr, c - tc) \<in> set offsets" and
      king: "cell ?b1 r c = CHR ''K'' \<or> cell ?b1 r c = CHR ''k''"
      by auto
    define x where "x = cell ?b1 r c"
    from king have x: "x = CHR ''K'' \<or> x = CHR ''k''" by (simp add: x_def)
    then have nonempty: "x \<noteq> CHR ''.''" by auto
    from present x have "count_piece (board s2) x \<noteq> 0"
      by (auto simp: rescan_def split: if_splits)
    then obtain r' c' where rc': "on_board r' c'" "cell (board s2) r' c' = x"
      using absent_iff [OF wf2, of x] by auto
    from explode_cells_wf [OF wf1, of tr tc offsets] run rc'(1)
    have "cell (board s2) r' c' =
        (if (r' - tr, c' - tc) \<in> set offsets then CHR ''.'' else cell ?b1 r' c')"
      by auto
    with rc'(2) nonempty have outside: "(r' - tr, c' - tc) \<notin> set offsets" "cell ?b1 r' c' = x"
      by (auto split: if_splits)
    with rc(2) have "r \<noteq> r' \<or> c \<noteq> c'" by auto
    from two_cells_count [OF _ rc(1) rc'(1) _ outside(2) this] wf1
    have "2 \<le> count_piece ?b1 x" by (simp add: x_def)
    moreover have "count_piece ?b1 x \<le> count_piece (board s) x"
      by (rule count_piece_relocate [OF assms(1) ob nonempty])
    moreover have "count_piece (board s) x \<le> 1"
      using assms(2) x by (auto simp: at_most_one_king_def)
    ultimately show False by simp
  qed
  have "current_game_state s' = current_game_state (check_win s2)"
    by (simp add: s')
  also have "\<dots> = rescan (board s2)"
    using key by (auto simp: check_win_rescan)
  finally show ?thesis by (simp add: s')
qed

lemma reachable_play:
  "reachable s \<Longrightarrow> play s ms = Some (Inr (ok, s')) \<Longrightarrow> reachable s'"
proof (induction ms arbitrary: s)
  case Nil
  then show ?case by simp
next
  case (Cons m ms)
  obtain f t where m: "m = (f, t)" by (cases m)
  from Cons.prems(2) obtain ok1 s1 where
    1: "make_move s f t = Some (Inr (ok1, s1))" and 2: "play s1 ms = Some (Inr (ok, s'))"
    by (auto simp: m split: option.splits sum.splits)
  from Cons.prems(1) 1 have "reachable s1" by (rule reachable.move)
  from Cons.IH [OF this 2] show ?case .
qed

lemma reachable_kings_adjacent: "reachable kings_adjacent"
proof -
  have "play init [(''e2'', ''e4''), (''e7'', ''e5''), (''e1'', ''e2''), (''e8'', ''e7''),
      (''e2'', ''e3''), (''e7'', ''e6''), (''e3'', ''f4''), (''e6'', ''f5'')] =
      Some (Inr (True, kings_adjacent))"
    by code_simp
  with reachable.start show ?thesis by (rule reachable_play)
qed

subsection \<open>What position_index accepts\<close>

lemma position_index_iff:
  "position_index p = Inr (Some (r, c)) \<longleftrightarrow> on_board r c \<and> p = algebraic (nat r, nat c)"
proof
  assume "position_index p = Inr (Some (r, c))"
  then show "on_board r c \<and> p = algebraic (nat r, nat c)"
    using position_index_on_board position_index_parsed by blast
next
  assume "on_board r c \<and> p = algebraic (nat r, nat c)"
  then have "nat r < 8" "nat c < 8" "int (nat r) = r" "int (nat c) = c"
    and p: "p = algebraic (nat r, nat c)"
    by (auto simp: on_board_def)
  with position_index_algebraic [of "nat r" "nat c"] show "position_index p = Inr (Some (r, c))"
    by simp
qed

lemma columns_indexes_defined:
  "x \<in> set columns \<Longrightarrow> \<exists>i. columns_indexes x = Some i"
  by (auto simp: columns_indexes_eq columns_def)

lemma position_index_raises:
  "position_index p = Inl e \<longleftrightarrow>
     e = ValueError \<and> length p = 2 \<and> p ! 0 \<in> set columns \<and>
     (p ! 1 = CHR 0xB2 \<or> p ! 1 = CHR 0xB3 \<or> p ! 1 = CHR 0xB9)"
proof (cases "length p = 2 \<and> p ! 0 \<in> set columns \<and> isdigit (p ! 1)")
  case False
  then have "position_index p = Inr None"
    by (auto simp: position_index_def)
  moreover have "isdigit (CHR 0xB2)" "isdigit (CHR 0xB3)" "isdigit (CHR 0xB9)"
    by (simp_all add: isdigit_def)
  ultimately show ?thesis using False by auto
next
  case True
  then obtain i where i: "columns_indexes (p ! 0) = Some i"
    using columns_indexes_defined by blast
  show ?thesis
  proof (cases "48 \<le> (of_char (p ! 1) :: nat) \<and> (of_char (p ! 1) :: nat) \<le> 57")
    case ascii: True
    then have "p ! 1 \<noteq> CHR 0xB2" "p ! 1 \<noteq> CHR 0xB3" "p ! 1 \<noteq> CHR 0xB9"
      by auto
    moreover have "\<exists>res. position_index p = Inr res"
      using True i ascii by (simp add: position_index_def py_int_def Let_def)
    ultimately show ?thesis by auto
  next
    case False
    with True have "p ! 1 = CHR 0xB2 \<or> p ! 1 = CHR 0xB3 \<or> p ! 1 = CHR 0xB9"
      unfolding isdigit_def by blast
    moreover have "position_index p = Inl ValueError"
      using True i False by (simp add: position_index_def py_int_def)
    ultimately show ?thesis using True by auto
  qed
qed

section \<open>The claims\<close>

text \<open>
  Claim C1. After a successful \<^verbatim>\<open>make_move\<close> whose destination held a piece, the board
  is again 8x8, and each of its squares holds what it held before the move, except that
  the from-square and every square of the 3x3 neighbourhood of the destination (the
  destination included) are empty. So nothing outside that neighbourhood and the
  from-square changes, and the explosion does not spread.
\<close>

theorem explosion_frame:
  assumes "wf_board (board s)" "make_move s f t = Some (Inr (True, s'))"
    "position_index f = Inr (Some (fr, fc))" "position_index t = Inr (Some (tr, tc))"
    "cell (board s) tr tc \<noteq> CHR ''.''"
  shows "wf_board (board s') \<and>
    (\<forall>r c. on_board r c \<longrightarrow>
       cell (board s') r c =
         (if (r = fr \<and> c = fc) \<or> in_blast tr tc r c then CHR ''.'' else cell (board s) r c))"
  using capture_board [OF assms] by blast

theorem explosion_frame_witness:
  "wf_board (board capture_position) \<and>
   make_move capture_position ''e1'' ''e5'' = Some (Inr (True, after_capture)) \<and>
   position_index ''e1'' = Inr (Some (7, 4)) \<and> position_index ''e5'' = Inr (Some (3, 4)) \<and>
   cell (board capture_position) 3 4 = CHR ''n'' \<and>
   cell (board after_capture) 7 4 = CHR ''.'' \<and> cell (board after_capture) 3 4 = CHR ''.'' \<and>
   cell (board after_capture) 2 3 = CHR ''.'' \<and> cell (board after_capture) 4 3 = CHR ''.'' \<and>
   cell (board after_capture) 0 4 = cell (board capture_position) 0 4"
proof -
  have wf: "wf_board (board capture_position)"
    by (simp add: capture_position_def wf_board_def glyphs_def)
  have mv: "make_move capture_position ''e1'' ''e5'' = Some (Inr (True, after_capture))"
    by code_simp
  have p1: "position_index ''e1'' = Inr (Some (7, 4))" by code_simp
  have p2: "position_index ''e5'' = Inr (Some (3, 4))" by code_simp
  have n: "cell (board capture_position) 3 4 = CHR ''n''" by code_simp
  then have ne: "cell (board capture_position) 3 4 \<noteq> CHR ''.''" by simp
  from explosion_frame [OF wf mv p1 p2 ne] wf mv p1 p2 n show ?thesis
    by (simp add: on_board_def in_blast_def)
qed

text \<open>
  Claim C2. Whenever \<^verbatim>\<open>make_move\<close> returns \<^verbatim>\<open>False\<close>, the board, the turn and the
  game state after the call are those before the call. The two ways to fail are spelled
  out: the game state is already terminal, or \<^verbatim>\<open>valid_move\<close> returned \<^verbatim>\<open>False\<close>.
\<close>

theorem failed_move_atomic:
  "(make_move s f t = Some (Inr (False, s')) \<longrightarrow>
      board s' = board s \<and> turn s' = turn s \<and> current_game_state s' = current_game_state s) \<and>
   (current_game_state s \<noteq> UNFINISHED \<longrightarrow> make_move s f t = Some (Inr (False, s))) \<and>
   (current_game_state s = UNFINISHED \<and> valid_move s f t = Some (Inr False) \<longrightarrow>
      make_move s f t = Some (Inr (False, s)))"
  using make_move_failure [of s f t s'] by (auto simp: make_move_def)

theorem failed_move_atomic_witness:
  "make_move finished_game ''e2'' ''e4'' = Some (Inr (False, finished_game)) \<and>
   valid_move init ''b1'' ''b3'' = Some (Inr False) \<and>
   make_move init ''b1'' ''b3'' = Some (Inr (False, init))"
proof -
  have 1: "current_game_state finished_game \<noteq> UNFINISHED"
    by (simp add: finished_game_def)
  have 2: "current_game_state init = UNFINISHED"
    by (simp add: init_def)
  have 3: "valid_move init ''b1'' ''b3'' = Some (Inr False)"
    by code_simp
  from failed_move_atomic [of finished_game "''e2''" "''e4''" finished_game] 1
    failed_move_atomic [of init "''b1''" "''b3''" init] 2 3
  show ?thesis by blast
qed



text \<open>
  Claim C4, as amended. After a successful \<^verbatim>\<open>make_move\<close> from a well-formed board
  with at most one King of each colour, the game state is the one a scan of the new board
  gives: \<^verbatim>\<open>BLACK_WON\<close> if no White King is left, else \<^verbatim>\<open>WHITE_WON\<close> if no Black
  King is left, else \<^verbatim>\<open>UNFINISHED\<close>. Capturing a King ends the game: when Black
  captures the White King the state is \<^verbatim>\<open>BLACK_WON\<close>; when White captures the Black
  King the state is \<^verbatim>\<open>WHITE_WON\<close> if the White King stands outside the explosion and
  is not the capturing piece, and \<^verbatim>\<open>BLACK_WON\<close> otherwise.
\<close>

theorem game_state_after_move:
  assumes "wf_board (board s)" "at_most_one_king (board s)"
    "make_move s f t = Some (Inr (True, s'))"
    "position_index f = Inr (Some (fr, fc))" "position_index t = Inr (Some (tr, tc))"
  shows "current_game_state s' = rescan (board s') \<and>
    (cell (board s) tr tc = CHR ''K'' \<longrightarrow>
       turn s = Black \<and> current_game_state s' = BLACK_WON) \<and>
    (cell (board s) tr tc = CHR ''k'' \<longrightarrow>
       turn s = White \<and>
       current_game_state s' =
         (if \<exists>r c. on_board r c \<and> cell (board s) r c = CHR ''K'' \<and>
               \<not> (r = fr \<and> c = fc) \<and> \<not> in_blast tr tc r c
          then WHITE_WON else BLACK_WON))"
proof -
  have st: "current_game_state s' = rescan (board s')"
    by (rule state_after_move [OF assms(1,2,3)])
  have ob: "on_board fr fc" "on_board tr tc"
    using assms(4,5) position_index_on_board by blast+
  have legal: "is_legal s f t"
    using assms(1,3) by (rule make_move_success_wf)
  then have other: "colour_of (cell (board s) tr tc) \<noteq> Some (turn s)"
    using assms(4,5) by (simp add: is_legal_def)
  have blast: "in_blast tr tc tr tc" by (simp add: in_blast_def)
  have gone: "count_piece (board s') x = 0"
    if x: "cell (board s) tr tc = x" "x = CHR ''K'' \<or> x = CHR ''k''" for x
  proof -
    from x have ne: "cell (board s) tr tc \<noteq> CHR ''.''" by auto
    have "\<not> (\<exists>r c. on_board r c \<and> cell (board s') r c = x)"
    proof
      assume "\<exists>r c. on_board r c \<and> cell (board s') r c = x"
      then obtain r c where rc: "on_board r c" "cell (board s') r c = x" by blast
      with capture_board(2) [OF assms(1,3,4,5) ne rc(1)] x(2)
      have out: "\<not> in_blast tr tc r c" "cell (board s) r c = x"
        by (auto split: if_splits)
      have "count_piece (board s) x \<le> 1"
        using assms(2) x(2) by (auto simp: at_most_one_king_def)
      from king_unique [OF assms(1) this rc(1) ob(2) out(2) x(1)] out(1) blast
      show False by simp
    qed
    with absent_iff [OF capture_board(1) [OF assms(1,3,4,5) ne]] show ?thesis by simp
  qed
  have white_king: "cell (board s) tr tc = CHR ''K'' \<Longrightarrow>
      turn s = Black \<and> current_game_state s' = BLACK_WON"
  proof -
    assume k: "cell (board s) tr tc = CHR ''K''"
    with other have "turn s = Black"
      by (cases "turn s") (simp_all add: colour_of_def)
    moreover from gone [OF k] have "rescan (board s') = BLACK_WON"
      by (simp add: rescan_def)
    ultimately show ?thesis by (simp add: st)
  qed
  have black_king: "cell (board s) tr tc = CHR ''k'' \<Longrightarrow>
      turn s = White \<and>
      current_game_state s' =
        (if \<exists>r c. on_board r c \<and> cell (board s) r c = CHR ''K'' \<and>
              \<not> (r = fr \<and> c = fc) \<and> \<not> in_blast tr tc r c
         then WHITE_WON else BLACK_WON)"
  proof -
    assume k: "cell (board s) tr tc = CHR ''k''"
    then have ne: "cell (board s) tr tc \<noteq> CHR ''.''" by simp
    from k other have turn: "turn s = White"
      by (cases "turn s") (simp_all add: colour_of_def)
    have "cell (board s') r c = CHR ''K'' \<longleftrightarrow>
        cell (board s) r c = CHR ''K'' \<and> \<not> (r = fr \<and> c = fc) \<and> \<not> in_blast tr tc r c"
      if "on_board r c" for r c
      using capture_board(2) [OF assms(1,3,4,5) ne that] by simp
    then have "(\<exists>r c. on_board r c \<and> cell (board s') r c = CHR ''K'') \<longleftrightarrow>
        (\<exists>r c. on_board r c \<and> cell (board s) r c = CHR ''K'' \<and>
              \<not> (r = fr \<and> c = fc) \<and> \<not> in_blast tr tc r c)"
      by blast
    with absent_iff [OF capture_board(1) [OF assms(1,3,4,5) ne], of "CHR ''K''"] gone [OF k]
    have "rescan (board s') =
        (if \<exists>r c. on_board r c \<and> cell (board s) r c = CHR ''K'' \<and>
              \<not> (r = fr \<and> c = fc) \<and> \<not> in_blast tr tc r c
         then WHITE_WON else BLACK_WON)"
      by (simp add: rescan_def)
    with turn show ?thesis by (simp add: st)
  qed
  from st white_king black_king show ?thesis by blast
qed

theorem game_state_after_move_witness:
  "wf_board (board capture_position) \<and> at_most_one_king (board capture_position) \<and>
   make_move capture_position ''e1'' ''e5'' = Some (Inr (True, after_capture)) \<and>
   rescan (board after_capture) = UNFINISHED \<and>
   current_game_state after_capture = UNFINISHED"
proof -
  have wf: "wf_board (board capture_position)"
    by (simp add: capture_position_def wf_board_def glyphs_def)
  have k: "at_most_one_king (board capture_position)"
    by (simp add: capture_position_def at_most_one_king_def count_piece_def)
  have mv: "make_move capture_position ''e1'' ''e5'' = Some (Inr (True, after_capture))"
    by code_simp
  have p1: "position_index ''e1'' = Inr (Some (7, 4))" by code_simp
  have p2: "position_index ''e5'' = Inr (Some (3, 4))" by code_simp
  have u: "current_game_state after_capture = UNFINISHED"
    by (simp add: after_capture_def)
  from game_state_after_move [OF wf k mv p1 p2] wf k mv u show ?thesis
    by simp
qed

text \<open>
  Claim C4 as stated also says that capturing the opposing King makes the capturer's
  colour win. After 1. e4 e5 2. Ke2 Ke7 3. Ke3 Ke6 4. Kf4 Kf5 the White King captures the
  Black King on f5; the explosion removes both Kings and the state is \<^verbatim>\<open>BLACK_WON\<close>.
\<close>

theorem king_takes_king_counterexample:
  "reachable kings_adjacent \<and> turn kings_adjacent = White \<and>
   position_index ''f5'' = Inr (Some (3, 5)) \<and> cell (board kings_adjacent) 3 5 = CHR ''k'' \<and>
   make_move kings_adjacent ''f4'' ''f5'' = Some (Inr (True, kings_gone)) \<and>
   current_game_state kings_gone = BLACK_WON"
proof -
  have "turn kings_adjacent = White" by (simp add: kings_adjacent_def)
  moreover have "position_index ''f5'' = Inr (Some (3, 5))" by code_simp
  moreover have "cell (board kings_adjacent) 3 5 = CHR ''k''" by code_simp
  moreover have "make_move kings_adjacent ''f4'' ''f5'' = Some (Inr (True, kings_gone))"
    by code_simp
  moreover have "current_game_state kings_gone = BLACK_WON" by (simp add: kings_gone_def)
  ultimately show ?thesis using reachable_kings_adjacent by simp
qed

text \<open>
  Claim C5 says that \<^verbatim>\<open>position_index\<close> returns \<^verbatim>\<open>(None, None)\<close> for every string
  that is not a column letter \<^verbatim>\<open>a-h\<close> followed by a digit \<^verbatim>\<open>1-8\<close>. On the two-character
  string made of \<^verbatim>\<open>a\<close> and the superscript two (U+00B2) the guard
  \<^verbatim>\<open>not position[1].isdigit()\<close> lets the string through, and \<^verbatim>\<open>int\<close> raises
  \<^verbatim>\<open>ValueError\<close>.
\<close>

theorem position_index_superscript_digit:
  "isdigit (CHR 0xB2) \<and> py_int (CHR 0xB2) = Inl ValueError \<and>
   position_index [CHR ''a'', CHR 0xB2] = Inl ValueError"
  by (simp add: position_index_def columns_def isdigit_def columns_indexes_eq py_int_def)

text \<open>
  Claim C6. After a successful \<^verbatim>\<open>make_move\<close> to an empty destination, a White pawn
  that reaches row 0 is a White queen and a Black pawn that reaches row 7 is a Black
  queen; any other piece stands on the destination unchanged. After a capture the
  destination is empty, so a capturing pawn is never promoted.
\<close>

theorem promotion_rule:
  assumes "wf_board (board s)" "make_move s f t = Some (Inr (True, s'))"
    "position_index f = Inr (Some (fr, fc))" "position_index t = Inr (Some (tr, tc))"
  shows "(cell (board s) tr tc = CHR ''.'' \<and> cell (board s) fr fc = CHR ''P'' \<and> tr = 0 \<longrightarrow>
            cell (board s') tr tc = CHR ''Q'') \<and>
         (cell (board s) tr tc = CHR ''.'' \<and> cell (board s) fr fc = CHR ''p'' \<and> tr = 7 \<longrightarrow>
            cell (board s') tr tc = CHR ''q'') \<and>
         (cell (board s) tr tc = CHR ''.'' \<and> \<not> promoting (cell (board s) fr fc) tr \<longrightarrow>
            cell (board s') tr tc = cell (board s) fr fc) \<and>
         (cell (board s) tr tc \<noteq> CHR ''.'' \<longrightarrow> cell (board s') tr tc = CHR ''.'')"
proof -
  have ob: "on_board tr tc"
    using assms(4) by (rule position_index_on_board)
  have "cell (board s) tr tc \<noteq> CHR ''.'' \<Longrightarrow> cell (board s') tr tc = CHR ''.''"
    using capture_board(2) [OF assms _ ob] by (simp add: in_blast_def)
  moreover have "cell (board s) tr tc = CHR ''.'' \<Longrightarrow> cell (board s') tr tc =
      (if promoting (cell (board s) fr fc) tr
       then (if cell (board s) fr fc = CHR ''P'' then CHR ''Q'' else CHR ''q'')
       else cell (board s) fr fc)"
    using quiet_board(2) [OF assms _ ob] by simp
  ultimately show ?thesis
    by (auto simp: promoting_def)
qed

theorem promotion_rule_witness:
  "wf_board (board promotion_position) \<and>
   make_move promotion_position ''e7'' ''e8'' = Some (Inr (True, after_promotion)) \<and>
   position_index ''e7'' = Inr (Some (1, 4)) \<and> position_index ''e8'' = Inr (Some (0, 4)) \<and>
   cell (board promotion_position) 0 4 = CHR ''.'' \<and>
   cell (board promotion_position) 1 4 = CHR ''P'' \<and>
   cell (board after_promotion) 0 4 = CHR ''Q''"
proof -
  have wf: "wf_board (board promotion_position)"
    by (simp add: promotion_position_def wf_board_def glyphs_def)
  have mv: "make_move promotion_position ''e7'' ''e8'' = Some (Inr (True, after_promotion))"
    by code_simp
  have p1: "position_index ''e7'' = Inr (Some (1, 4))" by code_simp
  have p2: "position_index ''e8'' = Inr (Some (0, 4))" by code_simp
  have e: "cell (board promotion_position) 0 4 = CHR ''.''" by code_simp
  have p: "cell (board promotion_position) 1 4 = CHR ''P''" by code_simp
  from promotion_rule [OF wf mv p1 p2] wf mv p1 p2 e p show ?thesis
    by simp
qed

text \<open>
  Claim C7. After a successful \<^verbatim>\<open>make_move\<close>: if the resulting game state is
  \<^verbatim>\<open>UNFINISHED\<close> the turn is the opposite colour of the turn before the call, and if
  the resulting game state is terminal the turn is the one before the call.
\<close>

theorem turn_alternation:
  assumes "make_move s f t = Some (Inr (True, s'))"
  shows "(current_game_state s' = UNFINISHED \<longrightarrow> turn s' = opponent (turn s)) \<and>
         (current_game_state s' \<noteq> UNFINISHED \<longrightarrow> turn s' = turn s)"
proof -
  from assms obtain s1 s2 fr fc tr tc target_piece moving_piece where
    s1: "move_piece s f t = Inr s1" and
    s2: "(if target_piece \<noteq> CHR ''.'' then explode_capture s1 t
          else promote s1 moving_piece tr tc) = Inr s2" and
    s': "s' = switch_turn (check_win s2)"
    by (rule make_move_success_steps)
  from s2 have "turn s2 = turn s1"
    by (auto split: if_splits dest: explode_capture_turn promote_turn)
  with s1 have "turn (check_win s2) = turn s"
    by (simp add: check_win_turn move_piece_turn)
  then show ?thesis
    unfolding s' by (cases "turn s") (auto simp: switch_turn_def opponent_def)
qed

theorem turn_alternation_witness:
  "make_move init ''e2'' ''e4'' = Some (Inr (True, after_e2e4)) \<and>
   current_game_state after_e2e4 = UNFINISHED \<and> turn init = White \<and> turn after_e2e4 = Black"
proof -
  have h: "make_move init ''e2'' ''e4'' = Some (Inr (True, after_e2e4))"
    by code_simp
  from turn_alternation [OF h] h show ?thesis
    by (simp add: after_e2e4_def init_def opponent_def)
qed

text \<open>
  Claim C8. For two squares of the board on a common rank, file or diagonal,
  \<^verbatim>\<open>clear_path\<close> terminates without an exception and returns whether every square
  strictly between them is empty (\<open>path_empty\<close>, true when there is none); these
  squares, the ones the walk visits, all lie on the board. The rook, bishop and queen
  rules call \<^verbatim>\<open>clear_path\<close> only for squares so aligned.
\<close>

theorem clear_path_correct:
  assumes "wf_board (board s)" "position_index f = Inr (Some (fr, fc))"
    "position_index t = Inr (Some (tr, tc))"
  shows "(aligned fr fc tr tc \<longrightarrow>
            clear_path s f t = Some (Inr (path_empty (board s) fr fc tr tc)) \<and>
            (\<forall>(r, c) \<in> set (between fr fc tr tc). on_board r c)) \<and>
         rook_move s f t =
           (if fr = tr \<or> fc = tc then clear_path s f t else Some (Inr False)) \<and>
         bishop_move s f t =
           (if \<bar>tr - fr\<bar> = \<bar>tc - fc\<bar> then clear_path s f t else Some (Inr False)) \<and>
         queen_move s f t =
           (if aligned fr fc tr tc then clear_path s f t else Some (Inr False))"
proof -
  have cp: "aligned fr fc tr tc \<Longrightarrow>
      clear_path s f t = Some (Inr (path_empty (board s) fr fc tr tc))"
    by (rule clear_path_aligned [OF assms])
  have rook: "rook_move s f t =
      (if fr = tr \<or> fc = tc then clear_path s f t else Some (Inr False))"
    using assms(2,3) by (simp add: rook_move_def positions_def)
  have bishop: "bishop_move s f t =
      (if \<bar>tr - fr\<bar> = \<bar>tc - fc\<bar> then clear_path s f t else Some (Inr False))"
    using assms(2,3) by (simp add: bishop_move_def positions_def)
  have queen: "queen_move s f t =
      (if aligned fr fc tr tc then clear_path s f t else Some (Inr False))"
    using queen_move_wf [OF assms] cp by (auto simp: aligned_def)
  have inside: "aligned fr fc tr tc \<Longrightarrow> \<forall>(r, c) \<in> set (between fr fc tr tc). on_board r c"
    using assms(2,3) by (auto simp: between_def position_index_on_board intro!: line_on_board)
  from cp inside rook bishop queen show ?thesis by blast
qed

theorem clear_path_correct_witness:
  "wf_board (board init) \<and> position_index ''a3'' = Inr (Some (5, 0)) \<and>
   position_index ''h3'' = Inr (Some (5, 7)) \<and> aligned 5 0 5 7 \<and>
   between 5 0 5 7 = [(5, 1), (5, 2), (5, 3), (5, 4), (5, 5), (5, 6)] \<and>
   path_empty (board init) 5 0 5 7 \<and>
   clear_path init ''a3'' ''h3'' = Some (Inr True)"
proof -
  have p1: "position_index ''a3'' = Inr (Some (5, 0))" by code_simp
  have p2: "position_index ''h3'' = Inr (Some (5, 7))" by code_simp
  have al: "aligned 5 0 5 7" by (simp add: aligned_def)
  have bt: "between 5 0 5 7 = [(5, 1), (5, 2), (5, 3), (5, 4), (5, 5), (5, 6)]" by code_simp
  have pe: "path_empty (board init) 5 0 5 7" by code_simp
  from clear_path_correct [OF wf_board_init p1 p2] p1 p2 al bt pe wf_board_init
  show ?thesis by simp
qed

text \<open>
  Claim C9. In every state reachable from the initial position by calls of
  \<^verbatim>\<open>make_move\<close> (successful or not), the board holds at most one White King and at
  most one Black King.
\<close>

theorem king_count_invariant:
  "reachable s \<Longrightarrow> at_most_one_king (board s)"
  using reachable_invariant by blast

theorem king_count_invariant_witness:
  "reachable after_e2e4 \<and> at_most_one_king (board after_e2e4) \<and>
   count_piece (board after_e2e4) (CHR ''K'') = 1 \<and> count_piece (board after_e2e4) (CHR ''k'') = 1"
proof -
  have "make_move init ''e2'' ''e4'' = Some (Inr (True, after_e2e4))" by code_simp
  with reachable.start have r: "reachable after_e2e4" by (rule reachable.move)
  have "count_piece (board after_e2e4) (CHR ''K'') = 1"
    "count_piece (board after_e2e4) (CHR ''k'') = 1"
    by (simp_all add: after_e2e4_def count_piece_def)
  with r king_count_invariant [OF r] show ?thesis by simp
qed

text \<open>
  Claim C10. On a well-formed board, for every string \<open>p\<close> that parses to a square,
  \<^verbatim>\<open>valid_move(p, p)\<close> returns \<^verbatim>\<open>False\<close>: the null move is rejected whatever the
  square holds, although \<^verbatim>\<open>king_move\<close> by itself accepts it.
\<close>

theorem null_move_rejected:
  assumes "wf_board (board s)" "position_index p = Inr (Some (r, c))"
  shows "valid_move s p p = Some (Inr False) \<and> king_move s p p = Inr True"
proof -
  have "\<not> is_legal s p p"
    using assms(2) by (simp add: is_legal_def)
  with valid_move_wf [OF assms(1) assms(2) assms(2)]
  have "valid_move s p p = Some (Inr False)" by simp
  moreover have "king_move s p p = Inr True"
    using king_move_wf [OF assms(2) assms(2)] by (simp add: king_pattern_def)
  ultimately show ?thesis by simp
qed

theorem null_move_rejected_witness:
  "wf_board (board init) \<and> position_index ''e1'' = Inr (Some (7, 4)) \<and>
   cell (board init) 7 4 = CHR ''K'' \<and> turn init = White \<and>
   valid_move init ''e1'' ''e1'' = Some (Inr False)"
proof -
  have p: "position_index ''e1'' = Inr (Some (7, 4))" by code_simp
  have k: "cell (board init) 7 4 = CHR ''K''" by code_simp
  from null_move_rejected [OF wf_board_init p] p k wf_board_init show ?thesis
    by (simp add: init_def)
qed

end
